theory Spec2Isabelle
  imports Complex_Main
begin

section \<open>PayWall402: payment verification, payment records and access tokens\<close>

text \<open>
  A shallow embedding of the payment core of the backend: the ledger check of a claimed
  transaction (\<open>utils/solana.js\<close>), the signed access token (\<open>utils/jwt.js\<close>), the
  verification route with its request validation (\<open>routes/payment.js\<close>,
  \<open>middleware/validation.js\<close>), the payment gate (\<open>middleware/x402.js\<close>) and the payment
  record of the database manager. What the source takes from outside is a parameter: the
  ledger client, the keyed digest, the clock, the facilitator, the address check of the ledger
  library, and the faults of the storage. The definitions come first, the properties after.
\<close>

section \<open>JavaScript numbers\<close>

text \<open>
  Amounts are JavaScript numbers. They are modelled as exact rationals, with \<open>None\<close> for
  \<open>NaN\<close> (the value of \<open>parseFloat(null)\<close>); the rounding of IEEE doubles is not modelled.
  Every comparison with \<open>NaN\<close> is false, and \<open>NaN !== 0\<close> is true.
\<close>

type_synonym jsnum = "rat option"

definition js_minus :: "jsnum \<Rightarrow> jsnum \<Rightarrow> jsnum" where
  "js_minus a b = (case a of None \<Rightarrow> None | Some x \<Rightarrow> (case b of None \<Rightarrow> None | Some y \<Rightarrow> Some (x - y)))"

definition js_abs :: "jsnum \<Rightarrow> jsnum" where
  "js_abs a = (case a of None \<Rightarrow> None | Some x \<Rightarrow> Some \<bar>x\<bar>)"

definition js_gt :: "jsnum \<Rightarrow> jsnum \<Rightarrow> bool" where
  "js_gt a b = (case a of None \<Rightarrow> False | Some x \<Rightarrow> (case b of None \<Rightarrow> False | Some y \<Rightarrow> x > y))"

definition js_strict_neq :: "jsnum \<Rightarrow> jsnum \<Rightarrow> bool" where
  "js_strict_neq a b = (case a of None \<Rightarrow> True | Some x \<Rightarrow> (case b of None \<Rightarrow> True | Some y \<Rightarrow> x \<noteq> y))"

section \<open>Ledger records (backend/utils/solana.js)\<close>

definition USDC_MINT_MAINNET :: string where
  "USDC_MINT_MAINNET = ''EPjFWdd5AufqSSqeM2qN1xzybapC8G4wEGGkZwyTDt1v''"

text \<open>
  One entry of \<open>meta.preTokenBalances\<close> / \<open>meta.postTokenBalances\<close>. The field
  \<open>uiAmount\<close> is \<open>uiTokenAmount.uiAmount\<close> after \<open>parseFloat\<close>: a number, or \<open>NaN\<close>
  when the ledger reports \<open>null\<close>. The owner is optional in the ledger's answer.
\<close>

record token_balance =
  accountIndex :: nat
  mint :: string
  owner :: "string option"
  uiAmount :: jsnum

datatype tx_error = TxError string

text \<open>
  \<open>tx.meta\<close>: \<open>err\<close> is \<open>None\<close> for \<open>null\<close> (success); a missing balance list is the
  empty list, as \<open>|| []\<close> makes it.
\<close>

record tx_meta =
  err :: "tx_error option"
  preTokenBalances :: "token_balance list"
  postTokenBalances :: "token_balance list"

text \<open>
  The fetched transaction. \<open>accountKeys\<close> is \<open>tx.transaction.message.accountKeys\<close>, each
  key in its base58 rendering (\<open>toString\<close> and \<open>toBase58\<close> agree on a public key);
  \<open>None\<close> when \<open>tx.transaction\<close> is absent. A message that does not expose
  \<open>accountKeys\<close> is outside the model.
\<close>

record tx_response =
  meta :: "tx_meta option"
  accountKeys :: "string list option"
  blockTime :: "int option"
  slot :: nat

text \<open>An element of \<open>usdcTransfers\<close>.\<close>

record transfer =
  t_accountIndex :: nat
  t_owner :: "string option"
  t_change :: jsnum
  t_mint :: string

text \<open>
  The \<open>details\<close> of a successful verification and the reasons of a failed one. Each
  failure constructor stands for one \<open>return {verified: false, error: ...}\<close> of the source:
  \<^item> \<open>TransactionNotFound\<close>: 'Transaction not found on blockchain'
  \<^item> \<open>TransactionFailed\<close>: 'Transaction failed on blockchain', with \<open>tx.meta.err\<close>
  \<^item> \<open>NoUsdcTransfers\<close>: 'No USDC transfers found in transaction'
  \<^item> \<open>RecipientNotFound\<close>: 'Expected recipient not found in transaction', with the expected
    recipient and the (owner, amount) pairs found
  \<^item> \<open>AmountMismatch\<close>: 'Transfer amount does not match expected amount', with expected,
    received and difference
  \<^item> \<open>VerificationFailed\<close>: the \<open>catch\<close> branch, with the exception's message.
\<close>

record verified_details =
  d_signature :: string
  d_recipient :: "string option"
  d_amount :: jsnum
  d_mint :: string
  d_blockTime :: "int option"
  d_slot :: nat

datatype verify_error =
    TransactionNotFound
  | TransactionFailed tx_error
  | NoUsdcTransfers
  | RecipientNotFound string "(string option \<times> jsnum) list"
  | AmountMismatch rat jsnum jsnum
  | VerificationFailed string

section \<open>verifySolanaTransaction\<close>

text \<open>The loop over \<open>postTokenBalances\<close> that fills \<open>usdcTransfers\<close>.\<close>

fun usdcTransfers :: "token_balance list \<Rightarrow> token_balance list \<Rightarrow> transfer list" where
  "usdcTransfers pres [] = []"
| "usdcTransfers pres (post # rest) =
     (let pre = find (\<lambda>p. accountIndex p = accountIndex post) pres in
      if mint post = USDC_MINT_MAINNET then
        (let preAmount = (case pre of Some p \<Rightarrow> uiAmount p | None \<Rightarrow> Some 0);
             postAmount = uiAmount post;
             change = js_minus postAmount preAmount in
         if js_strict_neq change (Some 0) then
           \<lparr>t_accountIndex = accountIndex post, t_owner = owner post,
            t_change = change, t_mint = mint post\<rparr> # usdcTransfers pres rest
         else usdcTransfers pres rest)
      else usdcTransfers pres rest)"

text \<open>
  Lines 83-102: the transfer credited to the expected recipient, and the fallback through the
  account keys of the transaction.
\<close>

definition recipientTransfer :: "transfer list \<Rightarrow> string list option \<Rightarrow> string \<Rightarrow> transfer option" where
  "recipientTransfer transfers keys expectedRecipient =
     (case find (\<lambda>t. t_owner t = Some expectedRecipient \<and> js_gt (t_change t) (Some 0)) transfers of
        Some t \<Rightarrow> Some t
      | None \<Rightarrow>
          (case keys of
             None \<Rightarrow> None
           | Some ks \<Rightarrow>
               (let recipientInKeys = list_ex (\<lambda>key. key = expectedRecipient) ks in
                if recipientInKeys then find (\<lambda>t. js_gt (t_change t) (Some 0)) transfers
                else None)))"

text \<open>Lines 115-143: the amount check on the chosen transfer and the successful answer.\<close>

definition verifyAmount :: "string \<Rightarrow> tx_response \<Rightarrow> transfer \<Rightarrow> rat \<Rightarrow> verify_error + verified_details" where
  "verifyAmount signature tx rt expectedAmount =
     (let amountReceived = t_change rt;
          tolerance = Some (expectedAmount * (1 / 1000));
          amountDiff = js_abs (js_minus amountReceived (Some expectedAmount)) in
      if js_gt amountDiff tolerance \<and> js_gt amountDiff (Some (1 / 100)) then
        Inl (AmountMismatch expectedAmount amountReceived amountDiff)
      else
        Inr \<lparr>d_signature = signature, d_recipient = t_owner rt, d_amount = amountReceived,
             d_mint = USDC_MINT_MAINNET, d_blockTime = blockTime tx, d_slot = slot tx\<rparr>)"

text \<open>
  The ledger client \<open>connection.getTransaction(signature, {commitment: 'confirmed'})\<close> is a
  parameter: \<open>Inl msg\<close> when the call throws, \<open>Inr None\<close> for \<open>null\<close> (no such
  transaction), \<open>Inr (Some tx)\<close> otherwise.
\<close>

type_synonym ledger = "string \<Rightarrow> string + tx_response option"

text \<open>\<open>tx.meta?.err\<close>, \<open>tx.meta?.preTokenBalances || []\<close>, \<open>tx.meta?.postTokenBalances || []\<close>.\<close>

definition tx_err :: "tx_response \<Rightarrow> tx_error option" where
  "tx_err tx = (case meta tx of None \<Rightarrow> None | Some m \<Rightarrow> err m)"

definition tx_pre :: "tx_response \<Rightarrow> token_balance list" where
  "tx_pre tx = (case meta tx of None \<Rightarrow> [] | Some m \<Rightarrow> preTokenBalances m)"

definition tx_post :: "tx_response \<Rightarrow> token_balance list" where
  "tx_post tx = (case meta tx of None \<Rightarrow> [] | Some m \<Rightarrow> postTokenBalances m)"

definition verifySolanaTransaction ::
  "ledger \<Rightarrow> string \<Rightarrow> string \<Rightarrow> rat \<Rightarrow> verify_error + verified_details" where
  "verifySolanaTransaction getTransaction signature expectedRecipient expectedAmount =
     (case getTransaction signature of
        Inl msg \<Rightarrow> Inl (VerificationFailed msg)
      | Inr None \<Rightarrow> Inl TransactionNotFound
      | Inr (Some tx) \<Rightarrow>
          (case tx_err tx of
             Some e \<Rightarrow> Inl (TransactionFailed e)
           | None \<Rightarrow>
               (let transfers = usdcTransfers (tx_pre tx) (tx_post tx) in
                if transfers = [] then Inl NoUsdcTransfers
                else
                  (case recipientTransfer transfers (accountKeys tx) expectedRecipient of
                     None \<Rightarrow>
                       Inl (RecipientNotFound expectedRecipient
                              (map (\<lambda>t. (t_owner t, t_change t)) transfers))
                   | Some rt \<Rightarrow> verifyAmount signature tx rt expectedAmount))))"

section \<open>Strings and base64 (the runtime's \<open>Buffer\<close>)\<close>

text \<open>
  A JavaScript string is modelled by the list of its bytes in UTF-8 (\<open>string\<close>), so
  \<open>Buffer.from(str)\<close> and \<open>buf.toString('utf8')\<close> are the identity; strings that are not
  well-formed Unicode, which the runtime would repair with U+FFFD, are outside the model.

  \<open>toString_base64\<close> is \<open>buf.toString('base64')\<close>: three bytes give four digits of the
  standard alphabet, the last group is padded with \<open>=\<close>. \<open>from_base64\<close> is
  \<open>Buffer.from(s, 'base64')\<close>, the runtime's lenient decoder: it stops at the first \<open>=\<close>,
  skips every character outside the alphabet, accepts the URL-safe digits \<open>-\<close> and \<open>_\<close> as
  well, and drops a dangling final digit.
\<close>

definition b64_digit :: "nat \<Rightarrow> char" where
  "b64_digit n =
     (if n < 26 then char_of (65 + n)
      else if n < 52 then char_of (97 + (n - 26))
      else if n < 62 then char_of (48 + (n - 52))
      else if n = 62 then CHR ''+'' else CHR ''/'')"

definition url_digit :: "nat \<Rightarrow> char" where
  "url_digit n = (if n = 62 then CHR ''-'' else if n = 63 then CHR ''_'' else b64_digit n)"

definition b64_value :: "char \<Rightarrow> nat option" where
  "b64_value c =
     (let k = (of_char c :: nat) in
      if 65 \<le> k \<and> k \<le> 90 then Some (k - 65)
      else if 97 \<le> k \<and> k \<le> 122 then Some (k - 71)
      else if 48 \<le> k \<and> k \<le> 57 then Some (k + 4)
      else if c = CHR ''+'' \<or> c = CHR ''-'' then Some 62
      else if c = CHR ''/'' \<or> c = CHR ''_'' then Some 63
      else None)"

fun sextets :: "nat list \<Rightarrow> nat list" where
  "sextets (a # b # c # rest) =
     [a div 4, (a mod 4) * 16 + b div 16, (b mod 16) * 4 + c div 64, c mod 64] @ sextets rest"
| "sextets [a, b] = [a div 4, (a mod 4) * 16 + b div 16, (b mod 16) * 4]"
| "sextets [a] = [a div 4, (a mod 4) * 16]"
| "sextets [] = []"

definition toString_base64 :: "string \<Rightarrow> string" where
  "toString_base64 s =
     map b64_digit (sextets (map of_char s))
       @ replicate ((3 - length s mod 3) mod 3) (CHR ''='')"

fun octets :: "nat list \<Rightarrow> nat list" where
  "octets (a # b # c # d # rest) =
     [a * 4 + b div 16, (b mod 16) * 16 + c div 4, (c mod 4) * 64 + d] @ octets rest"
| "octets [a, b, c] = [a * 4 + b div 16, (b mod 16) * 16 + c div 4]"
| "octets [a, b] = [a * 4 + b div 16]"
| "octets _ = []"

definition from_base64 :: "string \<Rightarrow> string" where
  "from_base64 s = map char_of (octets (List.map_filter b64_value (takeWhile (\<lambda>c. c \<noteq> CHR ''='') s)))"

text \<open>\<open>s.replace(/a/g, b)\<close> for single characters, and \<open>s.replace(/a/g, '')\<close>.\<close>

definition replace_char :: "char \<Rightarrow> char \<Rightarrow> string \<Rightarrow> string" where
  "replace_char a b s = map (\<lambda>c. if c = a then b else c) s"

definition remove_char :: "char \<Rightarrow> string \<Rightarrow> string" where
  "remove_char a s = filter (\<lambda>c. c \<noteq> a) s"

definition base64UrlEncode :: "string \<Rightarrow> string" where
  "base64UrlEncode str =
     remove_char (CHR ''='') (replace_char (CHR ''/'') (CHR ''_'')
       (replace_char (CHR ''+'') (CHR ''-'') (toString_base64 str)))"

text \<open>\<open>base64UrlDecode\<close>: the loop \<open>while (base64.length % 4) base64 += '='\<close> is \<open>pad4\<close>.\<close>

function pad4 :: "string \<Rightarrow> string" where
  "pad4 base64 = (if length base64 mod 4 \<noteq> 0 then pad4 (base64 @ [CHR ''='']) else base64)"
  by pat_completeness auto
termination
  by (relation "measure (\<lambda>s. (4 - length s mod 4) mod 4)") (auto simp: mod_Suc)

declare pad4.simps [simp del]

definition base64UrlDecode :: "string \<Rightarrow> string" where
  "base64UrlDecode str =
     from_base64 (pad4 (replace_char (CHR ''_'') (CHR ''/'') (replace_char (CHR ''-'') (CHR ''+'') str)))"

text \<open>\<open>s.split(sep)\<close> for a one-character separator: at least one part, empty parts kept.\<close>

fun split_on :: "char \<Rightarrow> string \<Rightarrow> string list" where
  "split_on sep [] = [[]]"
| "split_on sep (c # cs) =
     (if c = sep then [] # split_on sep cs
      else (case split_on sep cs of [] \<Rightarrow> [[c]] | p # ps \<Rightarrow> (c # p) # ps))"

section \<open>JSON (the runtime's \<open>JSON.stringify\<close> and \<open>JSON.parse\<close>)\<close>

text \<open>
  JSON values. Numbers are integers, as the timestamps \<open>iat\<close> and \<open>exp\<close> are (fractions and
  exponents are outside the model: \<open>JSON_parse\<close> rejects them, and integers are printed in
  plain decimal, as the runtime does below \<open>10^21\<close>). An object is the list of its properties
  in order; the runtime's rule that moves integer-like keys to the front is not modelled.
\<close>

datatype json =
    JNull
  | JBool bool
  | JNum int
  | JStr string
  | JArr "json list"
  | JObj "(string \<times> json) list"

subsection \<open>JSON.stringify\<close>

definition digit_char :: "nat \<Rightarrow> char" where
  "digit_char d = char_of (48 + d)"

fun show_nat :: "nat \<Rightarrow> string" where
  "show_nat n = (if n < 10 then [digit_char n] else show_nat (n div 10) @ [digit_char (n mod 10)])"

declare show_nat.simps [simp del]

definition show_int :: "int \<Rightarrow> string" where
  "show_int i = (if i < 0 then CHR ''-'' # show_nat (nat (- i)) else show_nat (nat i))"

definition hex_char :: "nat \<Rightarrow> char" where
  "hex_char d = (if d < 10 then char_of (48 + d) else char_of (87 + d))"

definition escape_char :: "char \<Rightarrow> string" where
  "escape_char c =
     (if c = CHR 0x22 then [CHR 0x5C, CHR 0x22]
      else if c = CHR 0x5C then [CHR 0x5C, CHR 0x5C]
      else if c = CHR 0x08 then [CHR 0x5C, CHR ''b'']
      else if c = CHR 0x0C then [CHR 0x5C, CHR ''f'']
      else if c = CHR 0x0A then [CHR 0x5C, CHR ''n'']
      else if c = CHR 0x0D then [CHR 0x5C, CHR ''r'']
      else if c = CHR 0x09 then [CHR 0x5C, CHR ''t'']
      else if (of_char c :: nat) < 32 then
        [CHR 0x5C, CHR ''u'', CHR ''0'', CHR ''0'', hex_char (of_char c div 16), hex_char (of_char c mod 16)]
      else [c])"

definition quote :: "string \<Rightarrow> string" where
  "quote s = CHR 0x22 # concat (map escape_char s) @ [CHR 0x22]"

fun join :: "string \<Rightarrow> string list \<Rightarrow> string" where
  "join sep [] = []"
| "join sep [x] = x"
| "join sep (x # y # ys) = x @ sep @ join sep (y # ys)"

fun JSON_stringify :: "json \<Rightarrow> string" where
  "JSON_stringify JNull = ''null''"
| "JSON_stringify (JBool b) = (if b then ''true'' else ''false'')"
| "JSON_stringify (JNum n) = show_int n"
| "JSON_stringify (JStr s) = quote s"
| "JSON_stringify (JArr xs) = ''['' @ join '','' (map JSON_stringify xs) @ '']''"
| "JSON_stringify (JObj kvs) =
     ''{'' @ join '','' (map (\<lambda>kv. quote (fst kv) @ '':'' @ JSON_stringify (snd kv)) kvs) @ ''}''"


subsection \<open>JSON.parse\<close>

text \<open>
  A recursive-descent parser of the JSON grammar: white space between tokens, the escapes
  of strings (a \<open>\u\<close> escape gives the UTF-8 bytes of its code point; surrogates are outside
  the model and rejected), no leading zeros, no trailing commas, and nothing but white space
  after the value. A repeated key keeps its first position and takes the last value, as
  defining the property twice does (\<open>obj_of\<close>). \<open>None\<close> is the \<open>SyntaxError\<close>. The first
  argument of \<open>parse_value\<close> bounds the number of nested and successive values;
  \<open>JSON_parse\<close> passes a bound beyond which the result no longer changes
  (\<open>JSON_parse_fuel\<close>).
\<close>

definition is_ws :: "char \<Rightarrow> bool" where
  "is_ws c \<longleftrightarrow> c = CHR '' '' \<or> c = CHR 0x09 \<or> c = CHR 0x0A \<or> c = CHR 0x0D"

definition skip_ws :: "string \<Rightarrow> string" where
  "skip_ws s = dropWhile is_ws s"

definition is_digit :: "char \<Rightarrow> bool" where
  "is_digit c \<longleftrightarrow> 48 \<le> (of_char c :: nat) \<and> (of_char c :: nat) \<le> 57"

definition digit_val :: "char \<Rightarrow> nat" where
  "digit_val c = of_char c - 48"

definition hex_val :: "char \<Rightarrow> nat option" where
  "hex_val c =
     (let k = (of_char c :: nat) in
      if 48 \<le> k \<and> k \<le> 57 then Some (k - 48)
      else if 97 \<le> k \<and> k \<le> 102 then Some (k - 87)
      else if 65 \<le> k \<and> k \<le> 70 then Some (k - 55)
      else None)"

definition utf8 :: "nat \<Rightarrow> string option" where
  "utf8 n =
     (if n < 128 then Some [char_of n]
      else if n < 2048 then Some [char_of (192 + n div 64), char_of (128 + n mod 64)]
      else if 55296 \<le> n \<and> n < 57344 then None
      else Some [char_of (224 + n div 4096), char_of (128 + (n div 64) mod 64), char_of (128 + n mod 64)])"

definition unicode_escape :: "char \<Rightarrow> char \<Rightarrow> char \<Rightarrow> char \<Rightarrow> string option" where
  "unicode_escape h1 h2 h3 h4 =
     (case (hex_val h1, hex_val h2, hex_val h3, hex_val h4) of
        (Some a, Some b, Some c, Some d) \<Rightarrow> utf8 (((a * 16 + b) * 16 + c) * 16 + d)
      | _ \<Rightarrow> None)"

definition simple_escape :: "char \<Rightarrow> char option" where
  "simple_escape e =
     (if e = CHR 0x22 then Some (CHR 0x22)
      else if e = CHR 0x5C then Some (CHR 0x5C)
      else if e = CHR ''/'' then Some (CHR ''/'')
      else if e = CHR ''b'' then Some (CHR 0x08)
      else if e = CHR ''f'' then Some (CHR 0x0C)
      else if e = CHR ''n'' then Some (CHR 0x0A)
      else if e = CHR ''r'' then Some (CHR 0x0D)
      else if e = CHR ''t'' then Some (CHR 0x09)
      else None)"

fun parse_string_body :: "string \<Rightarrow> (string \<times> string) option" where
  "parse_string_body [] = None"
| "parse_string_body (c # cs) =
     (if c = CHR 0x22 then Some ([], cs)
      else if c = CHR 0x5C then
        (case cs of
           [] \<Rightarrow> None
         | e # cs1 \<Rightarrow>
             if e = CHR ''u'' then
               (case cs1 of
                  h1 # h2 # h3 # h4 # cs2 \<Rightarrow>
                    (case unicode_escape h1 h2 h3 h4 of
                       None \<Rightarrow> None
                     | Some bytes \<Rightarrow> map_option (\<lambda>(s, r). (bytes @ s, r)) (parse_string_body cs2))
                | _ \<Rightarrow> None)
             else
               (case simple_escape e of
                  None \<Rightarrow> None
                | Some ch \<Rightarrow> map_option (\<lambda>(s, r). (ch # s, r)) (parse_string_body cs1)))
      else if (of_char c :: nat) < 32 then None
      else map_option (\<lambda>(s, r). (c # s, r)) (parse_string_body cs))"

definition digits_val :: "string \<Rightarrow> nat" where
  "digits_val ds = foldl (\<lambda>a d. 10 * a + digit_val d) 0 ds"

definition parse_int :: "string \<Rightarrow> (int \<times> string) option" where
  "parse_int s =
     (let neg = (case s of [] \<Rightarrow> False | c # cs \<Rightarrow> c = CHR ''-'');
          s1 = (if neg then tl s else s);
          ds = takeWhile is_digit s1;
          rest = dropWhile is_digit s1
      in if ds = [] then None
         else if take 1 ds = ''0'' \<and> length ds > 1 then None
         else if take 1 rest = ''.'' \<or> take 1 rest = ''e'' \<or> take 1 rest = ''E'' then None
         else Some ((if neg then - int (digits_val ds) else int (digits_val ds)), rest))"

fun obj_set :: "(string \<times> 'a) list \<Rightarrow> string \<Rightarrow> 'a \<Rightarrow> (string \<times> 'a) list" where
  "obj_set [] k v = [(k, v)]"
| "obj_set (kv # kvs) k v = (if fst kv = k then (k, v) # kvs else kv # obj_set kvs k v)"

definition obj_of :: "(string \<times> 'a) list \<Rightarrow> (string \<times> 'a) list" where
  "obj_of kvs = foldl (\<lambda>obj kv. obj_set obj (fst kv) (snd kv)) [] kvs"

fun parse_value :: "nat \<Rightarrow> string \<Rightarrow> (json \<times> string) option"
  and parse_elements :: "nat \<Rightarrow> string \<Rightarrow> (json list \<times> string) option"
  and parse_members :: "nat \<Rightarrow> string \<Rightarrow> ((string \<times> json) list \<times> string) option"
where
  "parse_value 0 s = None"
| "parse_value (Suc n) s =
     (case skip_ws s of
        [] \<Rightarrow> None
      | c # cs \<Rightarrow>
          if c = CHR ''{'' then
            (if take 1 (skip_ws cs) = ''}'' then Some (JObj [], drop 1 (skip_ws cs))
             else map_option (\<lambda>(kvs, r). (JObj (obj_of kvs), r)) (parse_members n cs))
          else if c = CHR ''['' then
            (if take 1 (skip_ws cs) = '']'' then Some (JArr [], drop 1 (skip_ws cs))
             else map_option (\<lambda>(vs, r). (JArr vs, r)) (parse_elements n cs))
          else if c = CHR 0x22 then map_option (\<lambda>(str, r). (JStr str, r)) (parse_string_body cs)
          else if take 4 (c # cs) = ''true'' then Some (JBool True, drop 4 (c # cs))
          else if take 5 (c # cs) = ''false'' then Some (JBool False, drop 5 (c # cs))
          else if take 4 (c # cs) = ''null'' then Some (JNull, drop 4 (c # cs))
          else map_option (\<lambda>(i, r). (JNum i, r)) (parse_int (c # cs)))"
| "parse_elements 0 s = None"
| "parse_elements (Suc n) s =
     (case parse_value n s of
        None \<Rightarrow> None
      | Some (v, r) \<Rightarrow>
          (case skip_ws r of
             [] \<Rightarrow> None
           | c # cs \<Rightarrow>
               if c = CHR '','' then map_option (\<lambda>(vs, r'). (v # vs, r')) (parse_elements n cs)
               else if c = CHR '']'' then Some ([v], cs)
               else None))"
| "parse_members 0 s = None"
| "parse_members (Suc n) s =
     (case skip_ws s of
        [] \<Rightarrow> None
      | c # cs \<Rightarrow>
          if c \<noteq> CHR 0x22 then None
          else
            (case parse_string_body cs of
               None \<Rightarrow> None
             | Some (k, r1) \<Rightarrow>
                 (case skip_ws r1 of
                    [] \<Rightarrow> None
                  | c1 # r2 \<Rightarrow>
                      if c1 \<noteq> CHR '':'' then None
                      else
                        (case parse_value n r2 of
                           None \<Rightarrow> None
                         | Some (v, r3) \<Rightarrow>
                             (case skip_ws r3 of
                                [] \<Rightarrow> None
                              | c2 # r4 \<Rightarrow>
                                  if c2 = CHR '','' then
                                    map_option (\<lambda>(kvs, r'). ((k, v) # kvs, r')) (parse_members n r4)
                                  else if c2 = CHR ''}'' then Some ([(k, v)], r4)
                                  else None)))))"

definition JSON_parse :: "string \<Rightarrow> json option" where
  "JSON_parse s =
     (case parse_value (Suc (2 * length s)) s of
        None \<Rightarrow> None
      | Some (v, r) \<Rightarrow> if skip_ws r = [] then Some v else None)"




section \<open>Access tokens (backend/utils/jwt.js)\<close>

text \<open>
  \<open>crypto.createHmac('sha256', SECRET).update(data).digest('base64')\<close>, the keyed digest of
  the runtime's library, is a parameter of every function that signs or verifies.
\<close>

type_synonym hmac = "string \<Rightarrow> string"

definition createSignature :: "hmac \<Rightarrow> string \<Rightarrow> string" where
  "createSignature hmac_digest data = base64UrlEncode (hmac_digest data)"

text \<open>
  \<open>generateAccessToken(payload, expiresIn)\<close>. \<open>date_now\<close> is \<open>Date.now()\<close> in
  milliseconds; the payload is an object, given by its properties in order; the spread
  followed by \<open>iat\<close> and \<open>exp\<close> sets these two properties.
\<close>

definition generateAccessToken :: "hmac \<Rightarrow> int \<Rightarrow> (string \<times> json) list \<Rightarrow> int \<Rightarrow> string" where
  "generateAccessToken hmac_digest date_now payload expiresIn =
     (let header = JObj [(''alg'', JStr ''HS256''), (''typ'', JStr ''JWT'')];
          now = date_now div 1000;
          claims = JObj (obj_set (obj_set payload ''iat'' (JNum now)) ''exp'' (JNum (now + expiresIn)));
          encodedHeader = base64UrlEncode (JSON_stringify header);
          encodedPayload = base64UrlEncode (JSON_stringify claims);
          signature = createSignature hmac_digest (encodedHeader @ ''.'' @ encodedPayload)
      in encodedHeader @ ''.'' @ encodedPayload @ ''.'' @ signature)"

text \<open>
  \<open>verifyAccessToken\<close> returns \<open>null\<close> (here \<open>Inl\<close>) or the payload. The source does not
  tell its failures apart in the value it returns; the tag records which \<open>return null\<close> is
  taken:
  \<^item> \<open>NoToken\<close>: \<open>!token\<close> (a token that is not a string is outside the model);
  \<^item> \<open>WrongPartCount\<close>: \<open>parts.length !== 3\<close>;
  \<^item> \<open>InvalidTokenSignature\<close>: \<open>signature !== expectedSignature\<close>;
  \<^item> \<open>TokenExpired\<close>: \<open>payload.exp && payload.exp < now\<close>;
  \<^item> \<open>TokenVerificationError\<close>: the \<open>catch\<close> branch (\<open>JSON.parse\<close> throws, or the
    payload is \<open>null\<close> and reading \<open>payload.exp\<close> throws).
\<close>

datatype token_error =
    NoToken
  | WrongPartCount
  | InvalidTokenSignature
  | TokenExpired
  | TokenVerificationError

text \<open>\<open>v.k\<close> for a value other than \<open>null\<close>: \<open>None\<close> is \<open>undefined\<close>.\<close>

fun get_prop :: "json \<Rightarrow> string \<Rightarrow> json option" where
  "get_prop (JObj kvs) k = map_of kvs k"
| "get_prop _ k = None"

fun js_truthy :: "json \<Rightarrow> bool" where
  "js_truthy JNull = False"
| "js_truthy (JBool b) = b"
| "js_truthy (JNum n) = (n \<noteq> 0)"
| "js_truthy (JStr s) = (s \<noteq> [])"
| "js_truthy (JArr xs) = True"
| "js_truthy (JObj kvs) = True"

text \<open>
  \<open>v < n\<close> for a number \<open>n\<close> converts \<open>v\<close> to a number first. The conversion is exact
  for numbers, booleans and \<open>null\<close>; a string is read as a decimal integer (\<open>None\<close>, that
  is \<open>NaN\<close>, otherwise: fractions, exponents and hexadecimal literals in strings are outside
  the model), an array through its string form.
\<close>

definition string_to_number :: "string \<Rightarrow> int option" where
  "string_to_number s =
     (let t = rev (skip_ws (rev (skip_ws s)));
          neg = (take 1 t = ''-'');
          u = (if take 1 t = ''-'' \<or> take 1 t = ''+'' then drop 1 t else t)
      in if t = [] then Some 0
         else if u \<noteq> [] \<and> list_all is_digit u
           then Some (if neg then - int (digits_val u) else int (digits_val u))
         else None)"

fun element_string :: "json \<Rightarrow> string" where
  "element_string JNull = []"
| "element_string (JBool b) = (if b then ''true'' else ''false'')"
| "element_string (JNum n) = show_int n"
| "element_string (JStr s) = s"
| "element_string (JArr xs) = join '','' (map element_string xs)"
| "element_string (JObj kvs) = ''[object Object]''"

fun to_number :: "json \<Rightarrow> int option" where
  "to_number JNull = Some 0"
| "to_number (JBool b) = Some (if b then 1 else 0)"
| "to_number (JNum n) = Some n"
| "to_number (JStr s) = string_to_number s"
| "to_number (JArr xs) = string_to_number (element_string (JArr xs))"
| "to_number (JObj kvs) = None"

definition js_less_than :: "json \<Rightarrow> int \<Rightarrow> bool" where
  "js_less_than v n = (case to_number v of None \<Rightarrow> False | Some m \<Rightarrow> m < n)"

definition verifyAccessToken :: "hmac \<Rightarrow> int \<Rightarrow> string \<Rightarrow> token_error + json" where
  "verifyAccessToken hmac_digest date_now token =
     (if token = [] then Inl NoToken
      else
        (case split_on (CHR ''.'') token of
           [encodedHeader, encodedPayload, signature] \<Rightarrow>
             (let expectedSignature = createSignature hmac_digest (encodedHeader @ ''.'' @ encodedPayload) in
              if signature \<noteq> expectedSignature then Inl InvalidTokenSignature
              else
                (case JSON_parse (base64UrlDecode encodedPayload) of
                   None \<Rightarrow> Inl TokenVerificationError
                 | Some payload \<Rightarrow>
                     if payload = JNull then Inl TokenVerificationError
                     else
                       (let now = date_now div 1000 in
                        case get_prop payload ''exp'' of
                          None \<Rightarrow> Inr payload
                        | Some e \<Rightarrow>
                            if js_truthy e \<and> js_less_than e now then Inl TokenExpired
                            else Inr payload)))
         | _ \<Rightarrow> Inl WrongPartCount))"

section \<open>Storage (backend/db/schema.sql)\<close>

text \<open>
  The two tables the payment path touches. Generated columns (\<open>id\<close>, \<open>paid_at\<close>,
  \<open>created_at\<close>, \<open>updated_at\<close>) and \<open>views\<close> are left out. \<open>payment_logs\<close> is a list:
  the schema puts no uniqueness constraint on \<open>transaction_signature\<close>, so equal rows can
  occur. \<open>content_id\<close> references \<open>content(id)\<close>.
\<close>

datatype payment_state = Pending | Completed | Failed

record content_row =
  price_usdc :: rat
  creator_wallet :: string
  expires_at :: "int option"
  payments :: int

record payment_row =
  content_id :: string
  payer_wallet :: string
  amount_usdc :: rat
  transaction_signature :: string
  payment_status :: payment_state

record db =
  content :: "string \<rightharpoonup> content_row"
  payment_logs :: "payment_row list"

datatype db_error = ConnectionFault | ForeignKeyViolation

text \<open>\<open>INSERT INTO payment_logs ...\<close>; the foreign key rejects an unknown content id.\<close>

definition insert_payment_log :: "payment_row \<Rightarrow> db \<Rightarrow> db_error + db" where
  "insert_payment_log row d =
     (if content_id row \<in> dom (content d)
      then Inr (d\<lparr>payment_logs := payment_logs d @ [row]\<rparr>)
      else Inl ForeignKeyViolation)"

text \<open>\<open>UPDATE content SET payments = payments + 1 WHERE id = $1\<close>.\<close>

definition increment_payments :: "string \<Rightarrow> db \<Rightarrow> db" where
  "increment_payments cid d =
     (case content d cid of
        None \<Rightarrow> d
      | Some row \<Rightarrow> d\<lparr>content := (content d)(cid \<mapsto> row\<lparr>payments := payments row + 1\<rparr>)\<rparr>)"

text \<open>\<open>SELECT * FROM payment_logs WHERE transaction_signature = $1\<close>.\<close>

definition payments_by_signature :: "string \<Rightarrow> db \<Rightarrow> payment_row list" where
  "payments_by_signature sig d = filter (\<lambda>p. transaction_signature p = sig) (payment_logs d)"

text \<open>
  Storage faults. Each call that reaches the database consumes one flag of the list: \<open>True\<close>
  means that this call throws (connection lost, timeout); past the end of the list no call
  fails.
\<close>

type_synonym faults = "bool list"

definition fault :: "faults \<Rightarrow> bool" where
  "fault fs = (case fs of [] \<Rightarrow> False | f # _ \<Rightarrow> f)"

section \<open>Request validation (backend/middleware/validation.js)\<close>

definition is_hex :: "char \<Rightarrow> bool" where
  "is_hex c \<longleftrightarrow> hex_val c \<noteq> None"

text \<open>\<open>/^[0-9a-f]{8}-[0-9a-f]{4}-[0-9a-f]{4}-[0-9a-f]{4}-[0-9a-f]{12}$/i\<close>\<close>

definition isValidUUID :: "string \<Rightarrow> bool" where
  "isValidUUID uuid =
     (case split_on (CHR ''-'') uuid of
        [a, b, c, d, e] \<Rightarrow>
          length a = 8 \<and> length b = 4 \<and> length c = 4 \<and> length d = 4 \<and> length e = 12
          \<and> list_all is_hex (a @ b @ c @ d @ e)
      | _ \<Rightarrow> False)"

definition is_base58 :: "char \<Rightarrow> bool" where
  "is_base58 c =
     (let k = (of_char c :: nat) in
      (49 \<le> k \<and> k \<le> 57) \<or> (65 \<le> k \<and> k \<le> 72) \<or> (74 \<le> k \<and> k \<le> 78) \<or> (80 \<le> k \<and> k \<le> 90)
      \<or> (97 \<le> k \<and> k \<le> 107) \<or> (109 \<le> k \<and> k \<le> 122))"

text \<open>\<open>/^[1-9A-HJ-NP-Za-km-z]{87,88}$|^sim_/\<close>\<close>

definition signatureRegex :: "string \<Rightarrow> bool" where
  "signatureRegex s \<longleftrightarrow>
     ((length s = 87 \<or> length s = 88) \<and> list_all is_base58 s) \<or> take 4 s = ''sim_''"

text \<open>
  The body of \<open>POST /api/payment/verify\<close>. A field is \<open>None\<close> when absent; fields that are
  not strings are outside the model.
\<close>

record verify_body =
  contentId :: "string option"
  transactionSignature :: "string option"
  payerWallet :: "string option"

text \<open>\<open>!x\<close> for an optional string: absent or empty.\<close>

definition js_not :: "string option \<Rightarrow> bool" where
  "js_not x = (case x of None \<Rightarrow> True | Some s \<Rightarrow> s = [])"

text \<open>The string held by a field that has passed the \<open>!x\<close> test.\<close>

definition field_text :: "string option \<Rightarrow> string" where
  "field_text x = (case x of None \<Rightarrow> [] | Some s \<Rightarrow> s)"

text \<open>
  \<open>validatePaymentRequest\<close>: \<open>Some error\<close> for a 400 answer, \<open>None\<close> for \<open>next()\<close>.
  \<open>isValidSolanaAddress\<close> (the \<open>PublicKey\<close> constructor of the ledger library accepting
  the string) is a parameter.
\<close>

definition validatePaymentRequest :: "(string \<Rightarrow> bool) \<Rightarrow> verify_body \<Rightarrow> string option" where
  "validatePaymentRequest isValidSolanaAddress body =
     (if js_not (contentId body) \<or> \<not> isValidUUID (field_text (contentId body))
        then Some ''Invalid content ID''
      else if js_not (transactionSignature body)
        then Some ''Invalid transaction signature''
      else if \<not> signatureRegex (field_text (transactionSignature body))
        then Some ''Invalid transaction signature format''
      else if \<not> js_not (payerWallet body) \<and> \<not> isValidSolanaAddress (field_text (payerWallet body))
        then Some ''Invalid payer wallet''
      else None)"

section \<open>POST /api/payment/verify (backend/routes/payment.js)\<close>

text \<open>The part of \<open>process.env\<close> in scope of the handler.\<close>

record env =
  NODE_ENV :: string
  FRONTEND_URL :: string

datatype verify_response =
    BadRequest string
  | ContentNotFound
  | PaymentRequired verify_error
  | VerifiedSimulated string string
  | VerifiedOnChain string string verified_details
  | ServerError

record verify_outcome =
  response :: verify_response
  db_after :: db
  ledger_calls :: "string list"

text \<open>
  Lines 142-152 and 200-210, the same two statements in both branches: the insert into
  \<open>payment_logs\<close>, then the counter update, each its own \<open>query\<close> call outside any
  transaction. The result is \<open>False\<close> when one of them throws.
\<close>

definition log_payment :: "faults \<Rightarrow> db \<Rightarrow> payment_row \<Rightarrow> bool \<times> db" where
  "log_payment fs d row =
     (if fault fs then (False, d)
      else
        (case insert_payment_log row d of
           Inl e \<Rightarrow> (False, d)
         | Inr d1 \<Rightarrow>
             if fault (drop 1 fs) then (False, d1)
             else (True, increment_payments (content_id row) d1)))"

definition or_unknown :: "string option \<Rightarrow> string" where
  "or_unknown w = (if js_not w then ''unknown'' else field_text w)"

definition SEVEN_DAYS :: int where
  "SEVEN_DAYS = 7 * 24 * 60 * 60"

definition verify_route ::
  "env \<Rightarrow> (string \<Rightarrow> bool) \<Rightarrow> hmac \<Rightarrow> int \<Rightarrow> ledger \<Rightarrow> faults \<Rightarrow> db \<Rightarrow> verify_body \<Rightarrow> verify_outcome" where
  "verify_route e isValidSolanaAddress hmac_digest date_now getTransaction fs d body =
     (case validatePaymentRequest isValidSolanaAddress body of
        Some msg \<Rightarrow> \<lparr>response = BadRequest msg, db_after = d, ledger_calls = []\<rparr>
      | None \<Rightarrow>
          if js_not (contentId body) \<or> js_not (transactionSignature body) then
            \<lparr>response = BadRequest ''Content ID and transaction signature are required'',
             db_after = d, ledger_calls = []\<rparr>
          else
            (let cid = field_text (contentId body);
                 sig = field_text (transactionSignature body) in
             if fault fs then \<lparr>response = ServerError, db_after = d, ledger_calls = []\<rparr>
             else
               (case content d cid of
                  None \<Rightarrow> \<lparr>response = ContentNotFound, db_after = d, ledger_calls = []\<rparr>
                | Some row \<Rightarrow>
                    (let expectedAmount = price_usdc row;
                         creatorWallet = creator_wallet row;
                         isSimulatedTx = (take 4 sig = ''sim_'');
                         logged = log_payment (drop 1 fs) d
                           \<lparr>content_id = cid, payer_wallet = or_unknown (payerWallet body),
                            amount_usdc = expectedAmount, transaction_signature = sig,
                            payment_status = Completed\<rparr>;
                         accessToken = generateAccessToken hmac_digest date_now
                           [(''contentId'', JStr cid), (''signature'', JStr sig),
                            (''payerWallet'', JStr (or_unknown (payerWallet body))),
                            (''type'', JStr ''payment'')] SEVEN_DAYS;
                         downloadUrl = FRONTEND_URL e @ ''/'' @ cid @ ''?payment='' @ accessToken
                     in
                     if isSimulatedTx then
                       (if fst logged
                        then \<lparr>response = VerifiedSimulated accessToken downloadUrl,
                              db_after = snd logged, ledger_calls = []\<rparr>
                        else \<lparr>response = ServerError, db_after = snd logged, ledger_calls = []\<rparr>)
                     else
                       (case verifySolanaTransaction getTransaction sig creatorWallet expectedAmount of
                          Inl failure \<Rightarrow>
                            \<lparr>response = PaymentRequired failure, db_after = d, ledger_calls = [sig]\<rparr>
                        | Inr details \<Rightarrow>
                            if fst logged
                            then \<lparr>response = VerifiedOnChain accessToken downloadUrl details,
                                  db_after = snd logged, ledger_calls = [sig]\<rparr>
                            else \<lparr>response = ServerError, db_after = snd logged,
                                  ledger_calls = [sig]\<rparr>)))))"

section \<open>The payment gate (backend/middleware/x402.js)\<close>

text \<open>
  Line 113: \<open>tokenPayload && tokenPayload.contentId === contentId && tokenPayload.type === 'payment'\<close>
  on the result of \<open>verifyAccessToken\<close> (\<open>null\<close> for every \<open>Inl\<close>).
\<close>

definition token_grants_access :: "hmac \<Rightarrow> int \<Rightarrow> string \<Rightarrow> string \<Rightarrow> bool" where
  "token_grants_access hmac_digest date_now cid paymentProof =
     (case verifyAccessToken hmac_digest date_now paymentProof of
        Inl e \<Rightarrow> False
      | Inr tokenPayload \<Rightarrow>
          js_truthy tokenPayload
          \<and> get_prop tokenPayload ''contentId'' = Some (JStr cid)
          \<and> get_prop tokenPayload ''type'' = Some (JStr ''payment''))"

text \<open>
  The facilitator's answer to \<open>POST /verify\<close> is a parameter of the legacy path: \<open>None\<close>
  when the request throws, otherwise \<open>response.data\<close>.
\<close>

record facilitator_data =
  f_verified :: bool
  f_signature :: string
  f_amount :: rat
  f_payerWallet :: "string option"

type_synonym facilitator = "string \<Rightarrow> string \<Rightarrow> rat \<Rightarrow> facilitator_data option"

text \<open>\<open>logPayment\<close>: the same two statements, inside a \<open>try\<close> that swallows the error.\<close>

definition logPayment :: "faults \<Rightarrow> db \<Rightarrow> string \<Rightarrow> facilitator_data \<Rightarrow> db" where
  "logPayment fs d cid paymentData =
     snd (log_payment fs d
       \<lparr>content_id = cid, payer_wallet = or_unknown (f_payerWallet paymentData),
        amount_usdc = f_amount paymentData, transaction_signature = f_signature paymentData,
        payment_status = Completed\<rparr>)"

definition verifyX402Payment :: "facilitator \<Rightarrow> faults \<Rightarrow> db \<Rightarrow> string \<Rightarrow> string \<Rightarrow> rat \<Rightarrow> bool \<times> db" where
  "verifyX402Payment post_verify fs d paymentProof cid expectedAmount =
     (case post_verify paymentProof cid expectedAmount of
        None \<Rightarrow> (False, d)
      | Some data \<Rightarrow>
          if f_verified data then (True, logPayment fs d cid data) else (False, d))"

datatype gate_response =
    GateNotFound
  | GateGone
  | GateNextToken json
  | GateNextLegacy
  | GatePaymentRequired
  | GateError

text \<open>
  \<open>x402PaymentGate\<close>. \<open>paymentProof\<close> is \<open>req.headers['x-payment-proof'] || req.query.payment\<close>;
  \<open>expires_at\<close> and \<open>date_now\<close> are in milliseconds, as \<open>Date\<close> compares them.
\<close>

definition x402PaymentGate ::
  "hmac \<Rightarrow> facilitator \<Rightarrow> int \<Rightarrow> faults \<Rightarrow> db \<Rightarrow> string \<Rightarrow> string option \<Rightarrow> gate_response \<times> db" where
  "x402PaymentGate hmac_digest post_verify date_now fs d cid paymentProof =
     (if fault fs then (GateError, d)
      else
        (case content d cid of
           None \<Rightarrow> (GateNotFound, d)
         | Some row \<Rightarrow>
             if (case expires_at row of None \<Rightarrow> False | Some t \<Rightarrow> t < date_now) then (GateGone, d)
             else if js_not paymentProof then (GatePaymentRequired, d)
             else
               (let proofText = field_text paymentProof;
                    legacy = verifyX402Payment post_verify (drop 1 fs) d proofText cid (price_usdc row) in
                case verifyAccessToken hmac_digest date_now proofText of
                  Inr tokenPayload \<Rightarrow>
                    if js_truthy tokenPayload
                       \<and> get_prop tokenPayload ''contentId'' = Some (JStr cid)
                       \<and> get_prop tokenPayload ''type'' = Some (JStr ''payment'')
                    then (GateNextToken tokenPayload, d)
                    else if fst legacy then (GateNextLegacy, snd legacy)
                    else (GatePaymentRequired, snd legacy)
                | Inl e \<Rightarrow>
                    if fst legacy then (GateNextLegacy, snd legacy)
                    else (GatePaymentRequired, snd legacy))))"

section \<open>POST /api/payment/initiate, after its middleware\<close>

datatype initiate_response =
    InitiateNotFound
  | InitiateGone
  | InitiateSession rat string
  | InitiateManual rat string
  | InitiateError

text \<open>
  The handler of \<open>/initiate\<close> (lines 17-104). The facilitator's \<open>create-payment\<close> call is a
  parameter: \<open>True\<close> when it answers, \<open>False\<close> when it throws and the manual instructions
  are returned instead. Both answers carry the price and the recipient.
\<close>

definition initiate_handler :: "bool \<Rightarrow> int \<Rightarrow> faults \<Rightarrow> db \<Rightarrow> string \<Rightarrow> initiate_response" where
  "initiate_handler facilitator_answers date_now fs d cid =
     (if fault fs then InitiateError
      else
        (case content d cid of
           None \<Rightarrow> InitiateNotFound
         | Some row \<Rightarrow>
             if (case expires_at row of None \<Rightarrow> False | Some t \<Rightarrow> t < date_now) then InitiateGone
             else if facilitator_answers then InitiateSession (price_usdc row) (creator_wallet row)
             else InitiateManual (price_usdc row) (creator_wallet row)))"

section \<open>DatabaseManager (the optimized database module)\<close>

text \<open>
  A statement is a function on the database that fails or returns rows and the new state.
  \<open>attempt\<close> is one \<open>queryClient.query(text, params)\<close>: it consumes one fault flag.
\<close>

type_synonym 'a statement = "db \<Rightarrow> db_error + 'a \<times> db"

definition attempt :: "'a statement \<Rightarrow> faults \<Rightarrow> db \<Rightarrow> (db_error + 'a) \<times> db \<times> faults" where
  "attempt stmt fs d =
     (if fault fs then (Inl ConnectionFault, d, drop 1 fs)
      else
        (case stmt d of
           Inl e \<Rightarrow> (Inl e, d, drop 1 fs)
         | Inr (rows, d') \<Rightarrow> (Inr rows, d', drop 1 fs)))"

text \<open>
  \<open>query\<close> with its retry loop (\<open>for attempt = 0 .. retries\<close>): the first argument counts the
  attempts left, the second is \<open>lastError\<close>. Caching is off for the payment statements.
\<close>

fun query_loop :: "nat \<Rightarrow> db_error \<Rightarrow> 'a statement \<Rightarrow> faults \<Rightarrow> db \<Rightarrow> (db_error + 'a) \<times> db \<times> faults" where
  "query_loop 0 lastError stmt fs d = (Inl lastError, d, fs)"
| "query_loop (Suc k) lastError stmt fs d =
     (case attempt stmt fs d of
        (Inl e, d', fs') \<Rightarrow> query_loop k e stmt fs' d'
      | (Inr rows, d', fs') \<Rightarrow> (Inr rows, d', fs'))"

definition dm_query :: "'a statement \<Rightarrow> faults \<Rightarrow> db \<Rightarrow> (db_error + 'a) \<times> db \<times> faults" where
  "dm_query stmt fs d = query_loop 3 ConnectionFault stmt fs d"

text \<open>
  \<open>transaction(callback)\<close>: \<open>BEGIN\<close>, the callback, \<open>COMMIT\<close>; any throw leads to
  \<open>ROLLBACK\<close>, which restores the state at \<open>BEGIN\<close>. \<open>BEGIN\<close> and \<open>COMMIT\<close> consume one
  fault flag each.
\<close>

definition dm_transaction ::
  "(faults \<Rightarrow> db \<Rightarrow> (db_error + 'a) \<times> db \<times> faults) \<Rightarrow> faults \<Rightarrow> db \<Rightarrow> (db_error + 'a) \<times> db \<times> faults" where
  "dm_transaction callback fs d =
     (if fault fs then (Inl ConnectionFault, d, drop 1 fs)
      else
        (case callback (drop 1 fs) d of
           (Inl e, d', fs') \<Rightarrow> (Inl e, d, fs')
         | (Inr r, d', fs') \<Rightarrow>
             if fault fs' then (Inl ConnectionFault, d, drop 1 fs')
             else (Inr r, d', drop 1 fs')))"

text \<open>The prepared statements \<open>getPaymentBySignature\<close>, \<open>createPayment\<close>, \<open>updatePaymentCount\<close>.\<close>

definition getPaymentBySignature :: "string \<Rightarrow> payment_row list statement" where
  "getPaymentBySignature sig d = Inr (payments_by_signature sig d, d)"

definition createPayment_stmt :: "payment_row \<Rightarrow> payment_row statement" where
  "createPayment_stmt row d =
     (case insert_payment_log row d of Inl e \<Rightarrow> Inl e | Inr d' \<Rightarrow> Inr (row, d'))"

definition updatePaymentCount :: "string \<Rightarrow> unit statement" where
  "updatePaymentCount cid d = Inr ((), increment_payments cid d)"

text \<open>\<open>DatabaseManager.createPayment\<close> (cache invalidation never throws and is left out).\<close>

definition createPayment :: "payment_row \<Rightarrow> faults \<Rightarrow> db \<Rightarrow> (db_error + payment_row) \<times> db \<times> faults" where
  "createPayment paymentData fs d =
     (case dm_query (getPaymentBySignature (transaction_signature paymentData)) fs d of
        (Inl e, d1, fs1) \<Rightarrow> (Inl e, d1, fs1)
      | (Inr existing, d1, fs1) \<Rightarrow>
          (case existing of
             r # rs \<Rightarrow> (Inr r, d1, fs1)
           | [] \<Rightarrow>
               dm_transaction
                 (\<lambda>fs2 d2.
                    case dm_query (createPayment_stmt paymentData) fs2 d2 of
                      (Inl e, d3, fs3) \<Rightarrow> (Inl e, d3, fs3)
                    | (Inr payment, d3, fs3) \<Rightarrow>
                        (case dm_query (updatePaymentCount (content_id paymentData)) fs3 d3 of
                           (Inl e, d4, fs4) \<Rightarrow> (Inl e, d4, fs4)
                         | (Inr u, d4, fs4) \<Rightarrow> (Inr payment, d4, fs4)))
                 fs1 d1))"

section \<open>Notions used to state the verifier's properties\<close>





subsection \<open>Notions used to state the round trip\<close>

fun wf_json :: "json \<Rightarrow> bool" where
  "wf_json (JArr xs) = list_all wf_json xs"
| "wf_json (JObj kvs) = (distinct (map fst kvs) \<and> list_all (\<lambda>kv. wf_json (snd kv)) kvs)"
| "wf_json _ = True"

fun fuel :: "json \<Rightarrow> nat" where
  "fuel (JArr xs) = Suc (sum_list (map (\<lambda>x. Suc (fuel x)) xs))"
| "fuel (JObj kvs) = Suc (sum_list (map (\<lambda>kv. Suc (fuel (snd kv))) kvs))"
| "fuel _ = 1"

definition value_end :: "string \<Rightarrow> bool" where
  "value_end rest \<longleftrightarrow> (case rest of [] \<Rightarrow> True | c # cs \<Rightarrow> c = CHR '','' \<or> c = CHR '']'' \<or> c = CHR ''}'')"

section \<open>Notions used to state the token properties\<close>

text \<open>
  The token that carries the given claims under the server's signature: what
  \<open>generateAccessToken\<close> builds from its claims object (lines 32-39), for any claims.
\<close>

definition signed_token :: "hmac \<Rightarrow> json \<Rightarrow> string" where
  "signed_token hmac_digest claims =
     (let encodedHeader = base64UrlEncode (JSON_stringify (JObj [(''alg'', JStr ''HS256''), (''typ'', JStr ''JWT'')]));
          encodedPayload = base64UrlEncode (JSON_stringify claims)
      in encodedHeader @ ''.'' @ encodedPayload @ ''.''
           @ createSignature hmac_digest (encodedHeader @ ''.'' @ encodedPayload))"

text \<open>A digest function for the examples (any function will do: the properties hold for all).\<close>

definition example_hmac :: hmac where
  "example_hmac data = rev data"

section \<open>Example ledger records\<close>

text \<open>
  A transaction in which the token account of \<open>recv\<close> (index 2, created by the transaction, so
  with no pre-balance) is credited \<open>a\<close> USDC and the payer's account is debited the same;
  \<open>e\<close> is its execution status and \<open>keys\<close> its account keys.
\<close>

definition example_tx :: "string \<Rightarrow> rat \<Rightarrow> tx_error option \<Rightarrow> string list \<Rightarrow> tx_response" where
  "example_tx recv a e keys =
     \<lparr>meta = Some \<lparr>err = e,
        preTokenBalances =
          [\<lparr>accountIndex = 1, mint = USDC_MINT_MAINNET, owner = Some ''payer'', uiAmount = Some 50\<rparr>],
        postTokenBalances =
          [\<lparr>accountIndex = 1, mint = USDC_MINT_MAINNET, owner = Some ''payer'', uiAmount = Some (50 - a)\<rparr>,
           \<lparr>accountIndex = 2, mint = USDC_MINT_MAINNET, owner = Some recv, uiAmount = Some a\<rparr>]\<rparr>,
      accountKeys = Some keys, blockTime = Some 1700000000, slot = 7\<rparr>"

section \<open>Example requests and stores\<close>

definition example_id :: string where
  "example_id = ''123e4567-e89b-12d3-a456-426614174000''"

definition example_signature :: string where
  "example_signature = replicate 88 (CHR ''5'')"

text \<open>A store with one listing priced at 10 USDC for \<open>creator\<close>, expiring at \<open>t\<close>.\<close>

definition example_db :: "int option \<Rightarrow> db" where
  "example_db t =
     \<lparr>content = [example_id \<mapsto>
        \<lparr>price_usdc = 10, creator_wallet = ''creator'', expires_at = t, payments = 0\<rparr>],
      payment_logs = []\<rparr>"

definition example_body :: "string \<Rightarrow> verify_body" where
  "example_body sig =
     \<lparr>contentId = Some example_id, transactionSignature = Some sig, payerWallet = None\<rparr>"

definition production :: env where
  "production = \<lparr>NODE_ENV = ''production'', FRONTEND_URL = ''https://paywall.example''\<rparr>"

text \<open>A ledger on which every signature names a successful payment of 10 USDC to \<open>creator\<close>.\<close>

definition paying_ledger :: ledger where
  "paying_ledger sig = Inr (Some (example_tx ''creator'' 10 None [''payer'', ''creator'']))"

text \<open>A ledger that knows no transaction.\<close>

definition empty_ledger :: ledger where
  "empty_ledger sig = Inr None"

section \<open>Properties of the payment verifier\<close>

text \<open>
  C3. A fetched transaction whose execution status is a failure is rejected with
  \<open>TransactionFailed\<close>, whatever token balances the record carries.
\<close>

theorem failed_transaction_rejected:
  assumes "getTransaction signature = Inr (Some tx)"
    and "meta tx = Some m"
    and "err m = Some e"
  shows "verifySolanaTransaction getTransaction signature expectedRecipient expectedAmount
           = Inl (TransactionFailed e)"
  using assms by (simp add: verifySolanaTransaction_def tx_err_def)


theorem failed_transaction_rejected_witness:
  "verifySolanaTransaction
      (\<lambda>s. Inr (Some (example_tx ''creator'' 10 (Some (TxError ''InstructionError'')) [''payer'', ''creator''])))
      ''sig1'' ''creator'' 10
     = Inl (TransactionFailed (TxError ''InstructionError''))
   \<and> verifySolanaTransaction
      (\<lambda>s. Inr (Some (example_tx ''creator'' 10 None [''payer'', ''creator''])))
      ''sig1'' ''creator'' 10
     = Inr \<lparr>d_signature = ''sig1'', d_recipient = Some ''creator'', d_amount = Some 10,
            d_mint = USDC_MINT_MAINNET, d_blockTime = Some 1700000000, d_slot = 7\<rparr>"
proof -
  let ?tx = "example_tx ''creator'' 10 (Some (TxError ''InstructionError'')) [''payer'', ''creator'']"
  have m: "meta ?tx = Some (the (meta ?tx))" by (simp add: example_tx_def)
  have e: "err (the (meta ?tx)) = Some (TxError ''InstructionError'')" by (simp add: example_tx_def)
  have 1: "verifySolanaTransaction (\<lambda>s. Inr (Some ?tx)) ''sig1'' ''creator'' 10
             = Inl (TransactionFailed (TxError ''InstructionError''))"
    using failed_transaction_rejected [of "\<lambda>s. Inr (Some ?tx)" "''sig1''" ?tx, OF refl m e] .
  have 2: "verifySolanaTransaction
      (\<lambda>s. Inr (Some (example_tx ''creator'' 10 None [''payer'', ''creator''])))
      ''sig1'' ''creator'' 10
     = Inr \<lparr>d_signature = ''sig1'', d_recipient = Some ''creator'', d_amount = Some 10,
            d_mint = USDC_MINT_MAINNET, d_blockTime = Some 1700000000, d_slot = 7\<rparr>"
    by (simp add: verifySolanaTransaction_def example_tx_def tx_err_def tx_pre_def tx_post_def
        USDC_MINT_MAINNET_def js_minus_def js_strict_neq_def recipientTransfer_def js_gt_def
        verifyAmount_def js_abs_def Let_def)
  from 1 2 show ?thesis by (rule conjI)
qed


lemmas verifier_eval =
  verifySolanaTransaction_def example_tx_def tx_err_def tx_pre_def tx_post_def
  USDC_MINT_MAINNET_def js_minus_def js_strict_neq_def recipientTransfer_def js_gt_def
  verifyAmount_def js_abs_def Let_def

subsection \<open>Choice of the recipient's transfer\<close>











subsection \<open>The amount check\<close>




section \<open>Round trips of base64url and JSON\<close>

subsection \<open>base64url\<close>

lemma of_char_char_of_small: "n < 256 \<Longrightarrow> (of_char (char_of n :: char) :: nat) = n"
  by (simp add: of_char_of)

lemma b64_value_digit: "n < 64 \<Longrightarrow> b64_value (b64_digit n) = Some n"
  unfolding b64_value_def b64_digit_def Let_def
  by (auto simp: of_char_of)

lemma char_of_eq_iff: "(n::nat) < 256 \<Longrightarrow> (char_of n = (c::char)) \<longleftrightarrow> n = of_char c"
proof
  assume "n < 256" "char_of n = c"
  then show "n = of_char c" by (auto simp: of_char_of)
next
  assume "n < 256" "n = of_char c"
  then show "char_of n = c" by simp
qed

lemma b64_digit_plain:
  assumes "n < 64"
  shows "b64_digit n \<noteq> CHR ''=''" "b64_digit n \<noteq> CHR ''.''"
    "b64_digit n \<noteq> CHR ''-''" "b64_digit n \<noteq> CHR ''_''"
  using assms unfolding b64_digit_def by (auto simp: char_of_eq_iff)

lemma sextets_lt: "\<forall>x \<in> set xs. x < 256 \<Longrightarrow> \<forall>y \<in> set (sextets xs). y < 64"
  by (induction xs rule: sextets.induct) (auto simp: div_less_iff_less_mult)

lemma pack_div: "(x::nat) < m \<Longrightarrow> (k * m + x) div m = k"
  by simp

lemma pack_mod: "(x::nat) < m \<Longrightarrow> (k * m + x) mod m = x"
  by simp

lemma octets_sextets: "\<forall>x \<in> set xs. x < 256 \<Longrightarrow> octets (sextets xs) = xs"
proof (induction xs rule: sextets.induct)
  case (1 a b c rest)
  then have b: "b div 16 < 16" and c: "c div 64 < 4"
    by (simp_all add: div_less_iff_less_mult)
  from 1 have "octets (sextets rest) = rest" by simp
  then show ?case
    using b c by (simp add: pack_div[OF b] pack_mod[OF b] pack_div[OF c] pack_mod[OF c])
next
  case (2 a b)
  then have b: "b div 16 < 16"
    by (simp_all add: div_less_iff_less_mult)
  have z: "(0::nat) < 4" by simp
  show ?case
    using pack_div[OF z, of "b mod 16"] b
    by (simp add: pack_div[OF b] pack_mod[OF b])
next
  case (3 a)
  have z: "(0::nat) < 16" by simp
  show ?case using pack_div[OF z, of "a mod 4"] by simp
next
  case 4
  then show ?case by simp
qed

lemma pad4_eq: "pad4 s = s @ replicate ((4 - length s mod 4) mod 4) (CHR ''='')"
proof (induction s rule: pad4.induct)
  case (1 base64)
  show ?case
  proof (cases "length base64 mod 4 = 0")
    case True
    then show ?thesis by (subst pad4.simps) simp
  next
    case False
    have "(4 - length base64 mod 4) mod 4 = Suc ((4 - Suc (length base64) mod 4) mod 4)"
      using False by (simp add: mod_Suc; presburger)
    with 1 False show ?thesis
      by (subst pad4.simps) (simp add: replicate_app_Cons_same)
  qed
qed

lemma of_char_lt_256: "\<forall>x \<in> set (map of_char (s::string)). (x::nat) < 256"
  by simp

lemma sextets_string_lt: "\<forall>y \<in> set (sextets (map of_char (s::string))). y < 64"
  by (rule sextets_lt) simp

lemma b64_digit_plus: "n < 64 \<Longrightarrow> b64_digit n = CHR ''+'' \<longleftrightarrow> n = 62"
  unfolding b64_digit_def by (auto simp: char_of_eq_iff)

lemma b64_digit_slash: "n < 64 \<Longrightarrow> b64_digit n = CHR ''/'' \<longleftrightarrow> n = 63"
  unfolding b64_digit_def by (auto simp: char_of_eq_iff)

lemma url_digit_step:
  assumes "n < 64"
  shows "(if (if b64_digit n = CHR ''+'' then CHR ''-'' else b64_digit n) = CHR ''/'' then CHR ''_''
          else (if b64_digit n = CHR ''+'' then CHR ''-'' else b64_digit n)) = url_digit n"
proof (cases "n = 62")
  case True
  then show ?thesis using b64_digit_plus[OF assms] by (simp add: url_digit_def)
next
  case False
  then have "b64_digit n \<noteq> CHR ''+''" using b64_digit_plus[OF assms] by simp
  then show ?thesis using False b64_digit_slash[OF assms] by (simp add: url_digit_def)
qed

lemma url_digit_undo:
  assumes "n < 64"
  shows "(if (if url_digit n = CHR ''-'' then CHR ''+'' else url_digit n) = CHR ''_'' then CHR ''/''
          else (if url_digit n = CHR ''-'' then CHR ''+'' else url_digit n)) = b64_digit n"
proof (cases "n = 62")
  case True
  then show ?thesis using b64_digit_plus[OF assms] by (simp add: url_digit_def)
next
  case n62: False
  show ?thesis
  proof (cases "n = 63")
    case True
    then show ?thesis using b64_digit_slash[OF assms] by (simp add: url_digit_def)
  next
    case False
    with n62 have "url_digit n = b64_digit n" by (simp add: url_digit_def)
    then show ?thesis using b64_digit_plain[OF assms] by simp
  qed
qed

lemma url_digit_plain:
  assumes "n < 64"
  shows "url_digit n \<noteq> CHR ''=''" and "url_digit n \<noteq> CHR ''.''"
  using b64_digit_plain[OF assms] by (auto simp: url_digit_def)

lemma base64UrlEncode_eq: "base64UrlEncode s = map url_digit (sextets (map of_char s))"
proof -
  let ?sx = "sextets (map of_char s)"
  have lt: "\<forall>y \<in> set ?sx. y < 64" by (rule sextets_string_lt)
  have 1: "replace_char (CHR ''/'') (CHR ''_'') (replace_char (CHR ''+'') (CHR ''-'') (map b64_digit ?sx))
           = map url_digit ?sx"
    unfolding replace_char_def map_map
  proof (rule map_cong[OF refl])
    fix x assume "x \<in> set ?sx"
    with lt have "x < 64" by blast
    then show "((\<lambda>c. if c = CHR ''/'' then CHR ''_'' else c) \<circ> ((\<lambda>c. if c = CHR ''+'' then CHR ''-'' else c) \<circ> b64_digit)) x
                = url_digit x"
      unfolding comp_def by (rule url_digit_step)
  qed
  have 2: "filter (\<lambda>c. c \<noteq> CHR ''='') (map url_digit ?sx) = map url_digit ?sx"
    using lt url_digit_plain(1) by (auto simp: filter_id_conv)
  have 3: "\<And>k. replace_char (CHR ''/'') (CHR ''_'') (replace_char (CHR ''+'') (CHR ''-'')
              (map b64_digit ?sx @ replicate k (CHR ''='')))
           = map url_digit ?sx @ replicate k (CHR ''='')"
    using 1 by (simp add: replace_char_def)
  show ?thesis
    unfolding base64UrlEncode_def toString_base64_def remove_char_def 3
    using 2 by simp
qed

lemma base64UrlEncode_no_dot: "CHR ''.'' \<notin> set (base64UrlEncode s)"
proof
  assume "CHR ''.'' \<in> set (base64UrlEncode s)"
  then obtain n where "n \<in> set (sextets (map of_char s))" "url_digit n = CHR ''.''"
    by (auto simp: base64UrlEncode_eq)
  then show False using sextets_string_lt[of s] url_digit_plain(2)[of n] by auto
qed

lemma map_filter_b64: "\<forall>y \<in> set sx. y < 64 \<Longrightarrow> List.map_filter b64_value (map b64_digit sx) = sx"
  by (induction sx) (simp_all add: List.map_filter_simps b64_value_digit)

lemma takeWhile_padding:
  "\<forall>y \<in> set sx. y < 64 \<Longrightarrow>
     takeWhile (\<lambda>c. c \<noteq> CHR ''='') (map b64_digit sx @ replicate k (CHR ''='')) = map b64_digit sx"
proof (induction sx)
  case Nil
  then show ?case by (cases k) simp_all
next
  case (Cons a sx)
  then show ?case using b64_digit_plain(1)[of a] by simp
qed

lemma base64Url_roundtrip: "base64UrlDecode (base64UrlEncode s) = s"
proof -
  let ?sx = "sextets (map of_char s)"
  have lt: "\<forall>y \<in> set ?sx. y < 64" by (rule sextets_string_lt)
  have undo: "replace_char (CHR ''_'') (CHR ''/'') (replace_char (CHR ''-'') (CHR ''+'') (map url_digit ?sx))
              = map b64_digit ?sx"
    unfolding replace_char_def map_map
  proof (rule map_cong[OF refl])
    fix x assume "x \<in> set ?sx"
    with lt have "x < 64" by blast
    then show "((\<lambda>c. if c = CHR ''_'' then CHR ''/'' else c) \<circ> ((\<lambda>c. if c = CHR ''-'' then CHR ''+'' else c) \<circ> url_digit)) x
                = b64_digit x"
      unfolding comp_def by (rule url_digit_undo)
  qed
  have "base64UrlDecode (base64UrlEncode s) = from_base64 (pad4 (map b64_digit ?sx))"
    by (simp only: base64UrlDecode_def base64UrlEncode_eq undo)
  also have "\<dots> = map char_of (octets ?sx)"
    by (simp add: from_base64_def pad4_eq takeWhile_padding[OF lt] map_filter_b64[OF lt])
  also have "\<dots> = map char_of (map of_char s :: nat list)"
    by (simp add: octets_sextets)
  also have "\<dots> = s"
    by (simp add: map_idI)
  finally show ?thesis .
qed

lemma split_on_nonempty: "split_on sep s \<noteq> []"
  by (induction s) (auto split: list.splits)

lemma split_on_no_sep: "sep \<notin> set a \<Longrightarrow> split_on sep a = [a]"
  by (induction a) auto

lemma split_on_append: "sep \<notin> set a \<Longrightarrow> split_on sep (a @ sep # rest) = a # split_on sep rest"
  by (induction a) auto

subsection \<open>Numbers\<close>

lemma show_nat_small: "n < 10 \<Longrightarrow> show_nat n = [digit_char n]"
  by (subst show_nat.simps) simp

lemma show_nat_large: "\<not> n < 10 \<Longrightarrow> show_nat n = show_nat (n div 10) @ [digit_char (n mod 10)]"
  by (subst show_nat.simps) simp

lemma is_digit_digit_char: "d < 10 \<Longrightarrow> is_digit (digit_char d)"
  by (simp add: is_digit_def digit_char_def of_char_of)

lemma digit_val_digit_char: "d < 10 \<Longrightarrow> digit_val (digit_char d) = d"
  by (simp add: digit_val_def digit_char_def of_char_of)

lemma show_nat_nonempty: "show_nat n \<noteq> []"
  by (subst show_nat.simps) simp

lemma show_nat_digits: "list_all is_digit (show_nat n)"
proof (induction n rule: show_nat.induct)
  case (1 n)
  show ?case
  proof (cases "n < 10")
    case True
    then show ?thesis by (simp add: show_nat_small[OF True] is_digit_digit_char)
  next
    case False
    with 1 show ?thesis by (simp add: show_nat_large[OF False] is_digit_digit_char)
  qed
qed

lemma digits_val_snoc: "digits_val (ds @ [d]) = 10 * digits_val ds + digit_val d"
  by (simp add: digits_val_def)

lemma digits_val_show_nat: "digits_val (show_nat n) = n"
proof (induction n rule: show_nat.induct)
  case (1 n)
  show ?case
  proof (cases "n < 10")
    case True
    then show ?thesis by (simp add: show_nat_small[OF True] digits_val_def digit_val_digit_char)
  next
    case False
    with 1 show ?thesis by (simp add: show_nat_large[OF False] digits_val_snoc digit_val_digit_char)
  qed
qed

lemma digit_char_zero: "d < 10 \<Longrightarrow> digit_char d = CHR ''0'' \<longleftrightarrow> d = 0"
  by (auto simp: digit_char_def char_of_eq_iff)


lemma show_nat_head: "\<exists>c cs. show_nat n = c # cs \<and> is_digit c \<and> (c = CHR ''0'' \<longrightarrow> n = 0)"
proof (induction n rule: show_nat.induct)
  case (1 n)
  show ?case
  proof (cases "n < 10")
    case True
    then show ?thesis by (simp add: show_nat_small[OF True] is_digit_digit_char digit_char_zero)
  next
    case False
    with 1 obtain c cs where "show_nat (n div 10) = c # cs" "is_digit c" "c = CHR ''0'' \<longrightarrow> n div 10 = 0"
      by blast
    then have "show_nat (n div 10) = c # cs \<and> is_digit c \<and> (c = CHR ''0'' \<longrightarrow> n div 10 = 0)"
      by simp
    moreover from False have "n div 10 \<noteq> 0" by simp
    ultimately show ?thesis by (auto simp: show_nat_large[OF False])
  qed
qed

lemma value_end_cases:
  assumes "value_end rest"
  obtains "rest = []" | c cs where "rest = c # cs" "c = CHR '','' \<or> c = CHR '']'' \<or> c = CHR ''}''"
  using assms by (auto simp: value_end_def split: list.splits)

lemma value_end_no_digit:
  assumes "value_end rest"
  shows "takeWhile is_digit rest = []" and "dropWhile is_digit rest = rest"
    and "take 1 rest \<noteq> ''.''" and "take 1 rest \<noteq> ''e''" and "take 1 rest \<noteq> ''E''"
  using assms by (auto elim!: value_end_cases simp: is_digit_def)

lemma digits_then_end:
  assumes "list_all is_digit ds" and "value_end rest"
  shows "takeWhile is_digit (ds @ rest) = ds" and "dropWhile is_digit (ds @ rest) = rest"
  using assms value_end_no_digit[OF assms(2)]
  by (simp_all add: list_all_iff takeWhile_append2 dropWhile_append2)

lemma show_nat_no_leading_zero: "\<not> (take 1 (show_nat n) = ''0'' \<and> length (show_nat n) > 1)"
proof
  assume a: "take 1 (show_nat n) = ''0'' \<and> length (show_nat n) > 1"
  obtain c cs where h: "show_nat n = c # cs" "c = CHR ''0'' \<longrightarrow> n = 0"
    using show_nat_head[of n] by blast
  with a have "n = 0" by simp
  then have "show_nat n = [digit_char 0]" by (simp add: show_nat_small)
  with a show False by simp
qed

lemma parse_int_show_nat:
  assumes "value_end rest"
  shows "parse_int (show_nat n @ rest) = Some (int n, rest)"
proof -
  obtain c cs where h: "show_nat n = c # cs" "is_digit c"
    using show_nat_head[of n] by blast
  then have notneg: "c \<noteq> CHR ''-''" by (auto simp: is_digit_def)
  have ne: "show_nat n \<noteq> []" by (rule show_nat_nonempty)
  note d = digits_then_end[OF show_nat_digits assms, of n]
  note e = value_end_no_digit(3-5)[OF assms]
  have "parse_int ((c # cs) @ rest) = Some (int (digits_val (c # cs)), rest)"
    unfolding parse_int_def Let_def
    using notneg d e ne show_nat_no_leading_zero[of n] h(1)
    by simp
  then show ?thesis by (simp add: h(1)[symmetric] digits_val_show_nat)
qed

lemma parse_int_show_int:
  assumes "value_end rest"
  shows "parse_int (show_int i @ rest) = Some (i, rest)"
proof (cases "i < 0")
  case False
  then show ?thesis using parse_int_show_nat[OF assms, of "nat i"] by (simp add: show_int_def)
next
  case True
  let ?n = "nat (- i)"
  have ne: "show_nat ?n \<noteq> []" by (rule show_nat_nonempty)
  note d = digits_then_end[OF show_nat_digits assms, of ?n]
  note e = value_end_no_digit(3-5)[OF assms]
  have "parse_int (CHR ''-'' # show_nat ?n @ rest) = Some (- int (digits_val (show_nat ?n)), rest)"
    unfolding parse_int_def Let_def
    using d e ne show_nat_no_leading_zero[of ?n]
    by simp
  with True show ?thesis by (simp add: show_int_def digits_val_show_nat)
qed

subsection \<open>Strings\<close>

lemma hex_val_hex_char: "d < 16 \<Longrightarrow> hex_val (hex_char d) = Some d"
  unfolding hex_val_def hex_char_def Let_def
  by (auto simp: of_char_of)

lemma hex_val_zero: "hex_val (CHR ''0'') = Some 0"
  by (simp add: hex_val_def)

lemma unicode_escape_control:
  assumes "(of_char c :: nat) < 32"
  shows "unicode_escape (CHR ''0'') (CHR ''0'') (hex_char (of_char c div 16)) (hex_char (of_char c mod 16)) = Some [c]"
proof -
  let ?k = "of_char c :: nat"
  have hi: "?k div 16 < 16" using assms by (simp add: div_less_iff_less_mult)
  have lo: "?k mod 16 < 16" by simp
  have "utf8 ?k = Some [c]" using assms by (simp add: utf8_def)
  then show ?thesis
    by (simp add: unicode_escape_def hex_val_zero hex_val_hex_char[OF hi] hex_val_hex_char[OF lo])
qed

lemma parse_escape_char:
  "parse_string_body (escape_char c @ cs0) =
     map_option (\<lambda>(s, r). (c # s, r)) (parse_string_body cs0)"
proof -
  consider (quote) "c = CHR 0x22" | (bs) "c = CHR 0x5C" | (b) "c = CHR 0x08" | (f) "c = CHR 0x0C"
    | (n) "c = CHR 0x0A" | (r) "c = CHR 0x0D" | (t) "c = CHR 0x09"
    | (ctl) "c \<noteq> CHR 0x22" "c \<noteq> CHR 0x5C" "c \<noteq> CHR 0x08" "c \<noteq> CHR 0x0C" "c \<noteq> CHR 0x0A"
        "c \<noteq> CHR 0x0D" "c \<noteq> CHR 0x09" "(of_char c :: nat) < 32"
    | (plain) "c \<noteq> CHR 0x22" "c \<noteq> CHR 0x5C" "\<not> (of_char c :: nat) < 32"
    by blast
  then show ?thesis
  proof cases
    case quote then show ?thesis by (simp add: escape_char_def simple_escape_def)
  next
    case bs then show ?thesis by (simp add: escape_char_def simple_escape_def)
  next
    case b then show ?thesis by (simp add: escape_char_def simple_escape_def)
  next
    case f then show ?thesis by (simp add: escape_char_def simple_escape_def)
  next
    case n then show ?thesis by (simp add: escape_char_def simple_escape_def)
  next
    case r then show ?thesis by (simp add: escape_char_def simple_escape_def)
  next
    case t then show ?thesis by (simp add: escape_char_def simple_escape_def)
  next
    case ctl
    then have "escape_char c = [CHR 0x5C, CHR ''u'', CHR ''0'', CHR ''0'',
        hex_char (of_char c div 16), hex_char (of_char c mod 16)]"
      by (simp add: escape_char_def)
    then show ?thesis using unicode_escape_control[OF ctl(8)] by simp
  next
    case plain
    then have "escape_char c = [c]"
      by (auto simp: escape_char_def)
    then show ?thesis using plain by simp
  qed
qed

lemma parse_string_body_escaped:
  "parse_string_body (concat (map escape_char s) @ CHR 0x22 # rest) = Some (s, rest)"
  by (induction s) (simp_all add: parse_escape_char)

lemma quote_head: "quote s = CHR 0x22 # concat (map escape_char s) @ [CHR 0x22]"
  by (simp add: quote_def)

subsection \<open>Values\<close>

lemma skip_ws_nonws: "\<not> is_ws c \<Longrightarrow> skip_ws (c # cs) = c # cs"
  by (simp add: skip_ws_def)

lemma skip_ws_punct [simp]:
  "skip_ws (CHR ''['' # cs) = CHR ''['' # cs"
  "skip_ws (CHR '']'' # cs) = CHR '']'' # cs"
  "skip_ws (CHR ''{'' # cs) = CHR ''{'' # cs"
  "skip_ws (CHR ''}'' # cs) = CHR ''}'' # cs"
  "skip_ws (CHR '','' # cs) = CHR '','' # cs"
  "skip_ws (CHR '':'' # cs) = CHR '':'' # cs"
  "skip_ws (CHR 0x22 # cs) = CHR 0x22 # cs"
  by (simp_all add: skip_ws_def is_ws_def)

lemma show_int_head:
  "\<exists>c cs. show_int i = c # cs \<and> (is_digit c \<or> c = CHR ''-'')"
proof -
  obtain c cs where "show_nat (nat i) = c # cs" "is_digit c"
    using show_nat_head[of "nat i"] by blast
  then show ?thesis by (auto simp: show_int_def)
qed

lemma number_head_plain:
  assumes "is_digit c \<or> c = CHR ''-''"
  shows "\<not> is_ws c" "c \<noteq> CHR ''{''" "c \<noteq> CHR ''[''" "c \<noteq> CHR '']''" "c \<noteq> CHR ''}''" "c \<noteq> CHR 0x22"
    "c \<noteq> CHR ''t''" "c \<noteq> CHR ''f''" "c \<noteq> CHR ''n''"
  using assms by (auto simp: is_digit_def is_ws_def)

lemma stringify_head:
  "\<exists>c cs. JSON_stringify v = c # cs \<and> \<not> is_ws c \<and> c \<noteq> CHR '']'' \<and> c \<noteq> CHR ''}''"
proof (cases v)
  case (JNum i)
  obtain c cs where "show_int i = c # cs" "is_digit c \<or> c = CHR ''-''"
    using show_int_head[of i] by blast
  with JNum show ?thesis using number_head_plain[of c] by simp
qed (auto simp: is_ws_def quote_def)

lemma parse_value_num:
  assumes "value_end rest"
  shows "parse_value (Suc n) (show_int i @ rest) = Some (JNum i, rest)"
proof -
  obtain c cs where h: "show_int i = c # cs" "is_digit c \<or> c = CHR ''-''"
    using show_int_head[of i] by blast
  note p = number_head_plain[OF h(2)]
  have "parse_value (Suc n) ((c # cs) @ rest) = map_option (\<lambda>(i, r). (JNum i, r)) (parse_int ((c # cs) @ rest))"
    using p by (simp add: skip_ws_nonws)
  then show ?thesis using parse_int_show_int[OF assms, of i] by (simp add: h(1))
qed

lemma parse_value_str: "parse_value (Suc n) (quote s @ rest) = Some (JStr s, rest)"
  by (simp add: quote_def parse_string_body_escaped)

lemma parse_value_atoms:
  "parse_value (Suc n) (''null'' @ rest) = Some (JNull, rest)"
  "parse_value (Suc n) (''true'' @ rest) = Some (JBool True, rest)"
  "parse_value (Suc n) (''false'' @ rest) = Some (JBool False, rest)"
  by (simp_all add: skip_ws_def is_ws_def)

lemma parse_elements_join:
  assumes "\<And>x n rest. x \<in> set xs \<Longrightarrow> fuel x \<le> n \<Longrightarrow> value_end rest \<Longrightarrow>
             parse_value n (JSON_stringify x @ rest) = Some (x, rest)"
    and "xs \<noteq> []"
    and "sum_list (map (\<lambda>x. Suc (fuel x)) xs) \<le> n"
  shows "parse_elements n (join '','' (map JSON_stringify xs) @ CHR '']'' # rest) = Some (xs, rest)"
  using assms
proof (induction xs arbitrary: n)
  case Nil
  then show ?case by simp
next
  case (Cons x xs)
  from Cons.prems(3) obtain m where n: "n = Suc m" and m: "fuel x + sum_list (map (\<lambda>x. Suc (fuel x)) xs) \<le> m"
    by (cases n) auto
  show ?case
  proof (cases xs)
    case Nil
    have ve: "value_end (CHR '']'' # rest)" by (simp add: value_end_def)
    have "parse_value m (JSON_stringify x @ CHR '']'' # rest) = Some (x, CHR '']'' # rest)"
      using Cons.prems(1)[of x m, OF _ _ ve] m by simp
    then show ?thesis using Nil n by simp
  next
    case (Cons y ys)
    let ?tail = "join '','' (map JSON_stringify xs) @ CHR '']'' # rest"
    have ve: "value_end (CHR '','' # ?tail)" by (simp add: value_end_def)
    have 1: "parse_value m (JSON_stringify x @ CHR '','' # ?tail) = Some (x, CHR '','' # ?tail)"
      using Cons.prems(1)[of x m, OF _ _ ve] m by simp
    have 2: "parse_elements m ?tail = Some (xs, rest)"
    proof (rule Cons.IH)
      show "xs \<noteq> []" using Cons by simp
      show "sum_list (map (\<lambda>x. Suc (fuel x)) xs) \<le> m" using m by simp
      show "\<And>x n rest. x \<in> set xs \<Longrightarrow> fuel x \<le> n \<Longrightarrow> value_end rest \<Longrightarrow>
             parse_value n (JSON_stringify x @ rest) = Some (x, rest)"
        using Cons.prems(1) by simp
    qed
    have "join '','' (map JSON_stringify (x # xs)) @ CHR '']'' # rest
            = JSON_stringify x @ CHR '','' # ?tail"
      using Cons by simp
    then show ?thesis using 1 2 n by simp
  qed
qed

lemma parse_members_join:
  assumes "\<And>kv n rest. kv \<in> set kvs \<Longrightarrow> fuel (snd kv) \<le> n \<Longrightarrow> value_end rest \<Longrightarrow>
             parse_value n (JSON_stringify (snd kv) @ rest) = Some (snd kv, rest)"
    and "kvs \<noteq> []"
    and "sum_list (map (\<lambda>kv. Suc (fuel (snd kv))) kvs) \<le> n"
  shows "parse_members n
           (join '','' (map (\<lambda>kv. quote (fst kv) @ '':'' @ JSON_stringify (snd kv)) kvs) @ CHR ''}'' # rest)
         = Some (kvs, rest)"
  using assms
proof (induction kvs arbitrary: n)
  case Nil
  then show ?case by simp
next
  case (Cons kv kvs)
  from Cons.prems(3) obtain m where n: "n = Suc m"
    and m: "fuel (snd kv) + sum_list (map (\<lambda>kv. Suc (fuel (snd kv))) kvs) \<le> m"
    by (cases n) auto
  obtain k v where kv: "kv = (k, v)" by (cases kv)
  show ?case
  proof (cases kvs)
    case Nil
    have ve: "value_end (CHR ''}'' # rest)" by (simp add: value_end_def)
    have "parse_value m (JSON_stringify v @ CHR ''}'' # rest) = Some (v, CHR ''}'' # rest)"
      using Cons.prems(1)[of kv m, OF _ _ ve] m kv by simp
    then show ?thesis using Nil n kv by (simp add: quote_def parse_string_body_escaped)
  next
    case (Cons y ys)
    let ?tail = "join '','' (map (\<lambda>kv. quote (fst kv) @ '':'' @ JSON_stringify (snd kv)) kvs) @ CHR ''}'' # rest"
    have ve: "value_end (CHR '','' # ?tail)" by (simp add: value_end_def)
    have 1: "parse_value m (JSON_stringify v @ CHR '','' # ?tail) = Some (v, CHR '','' # ?tail)"
      using Cons.prems(1)[of kv m, OF _ _ ve] m kv by simp
    have 2: "parse_members m ?tail = Some (kvs, rest)"
    proof (rule Cons.IH)
      show "kvs \<noteq> []" using Cons by simp
      show "sum_list (map (\<lambda>kv. Suc (fuel (snd kv))) kvs) \<le> m" using m by simp
      show "\<And>kv n rest. kv \<in> set kvs \<Longrightarrow> fuel (snd kv) \<le> n \<Longrightarrow> value_end rest \<Longrightarrow>
             parse_value n (JSON_stringify (snd kv) @ rest) = Some (snd kv, rest)"
        using Cons.prems(1) by simp
    qed
    have "join '','' (map (\<lambda>kv. quote (fst kv) @ '':'' @ JSON_stringify (snd kv)) (kv # kvs)) @ CHR ''}'' # rest
            = CHR 0x22 # concat (map escape_char k) @ CHR 0x22 # CHR '':'' # JSON_stringify v @ CHR '','' # ?tail"
      using Cons kv by (simp add: quote_def)
    then show ?thesis using 1 2 n kv by (simp add: parse_string_body_escaped)
  qed
qed

lemma obj_set_fresh: "k \<notin> fst ` set kvs \<Longrightarrow> obj_set kvs k v = kvs @ [(k, v)]"
  by (induction kvs) auto

lemma obj_of_aux:
  "distinct (map fst (acc @ kvs)) \<Longrightarrow>
     foldl (\<lambda>obj kv. obj_set obj (fst kv) (snd kv)) acc kvs = acc @ kvs"
proof (induction kvs arbitrary: acc)
  case Nil
  then show ?case by simp
next
  case (Cons kv kvs)
  from Cons.prems have "fst kv \<notin> fst ` set acc" by auto
  then have "obj_set acc (fst kv) (snd kv) = acc @ [kv]" by (simp add: obj_set_fresh)
  moreover have "distinct (map fst ((acc @ [kv]) @ kvs))" using Cons.prems by simp
  ultimately show ?case using Cons.IH[of "acc @ [kv]"] by simp
qed

lemma obj_of_distinct: "distinct (map fst kvs) \<Longrightarrow> obj_of kvs = kvs"
  using obj_of_aux[of "[]" kvs] by (simp add: obj_of_def)

lemma member_head:
  "kvs \<noteq> [] \<Longrightarrow> \<exists>cs. join '','' (map (\<lambda>kv. quote (fst kv) @ '':'' @ JSON_stringify (snd kv)) kvs) @ rest
        = CHR 0x22 # cs"
proof (cases kvs)
  case Nil
  assume "kvs \<noteq> []"
  with Nil show ?thesis by simp
next
  case (Cons kv kvs')
  then show ?thesis by (cases kvs') (simp_all add: quote_def)
qed

lemma element_head:
  assumes "xs \<noteq> []"
  shows "\<exists>c cs. join '','' (map JSON_stringify xs) @ rest = c # cs \<and> \<not> is_ws c \<and> c \<noteq> CHR '']''"
proof -
  from assms obtain x xs' where xs: "xs = x # xs'" by (cases xs) auto
  obtain c cs where "JSON_stringify x = c # cs" "\<not> is_ws c" "c \<noteq> CHR '']''"
    using stringify_head[of x] by blast
  then show ?thesis using xs by (cases xs') simp_all
qed

lemma parse_value_stringify:
  "wf_json v \<Longrightarrow> fuel v \<le> n \<Longrightarrow> value_end rest \<Longrightarrow>
     parse_value n (JSON_stringify v @ rest) = Some (v, rest)"
proof (induction v arbitrary: n rest)
  case JNull
  then obtain m where "n = Suc m" by (cases n) auto
  then show ?case using parse_value_atoms(1)[of m rest] by simp
next
  case (JBool b)
  then obtain m where "n = Suc m" by (cases n) auto
  then show ?case using parse_value_atoms(2,3)[of m rest] by (cases b) simp_all
next
  case (JNum i)
  then obtain m where "n = Suc m" by (cases n) auto
  then show ?case using parse_value_num[OF JNum.prems(3), of m i] by simp
next
  case (JStr s)
  then obtain m where "n = Suc m" by (cases n) auto
  then show ?case using parse_value_str[of m s rest] by simp
next
  case (JArr xs)
  from JArr.prems(2) obtain m where n: "n = Suc m" and m: "sum_list (map (\<lambda>x. Suc (fuel x)) xs) \<le> m"
    by (cases n) auto
  show ?case
  proof (cases "xs = []")
    case True
    then show ?thesis using n by simp
  next
    case False
    have el: "parse_elements m (join '','' (map JSON_stringify xs) @ CHR '']'' # rest) = Some (xs, rest)"
    proof (rule parse_elements_join[OF _ False m])
      fix x n rest assume "x \<in> set xs" "fuel x \<le> n" "value_end rest"
      moreover from \<open>x \<in> set xs\<close> JArr.prems(1) have "wf_json x" by (simp add: list_all_iff)
      ultimately show "parse_value n (JSON_stringify x @ rest) = Some (x, rest)"
        using JArr.IH by blast
    qed
    obtain c cs where h: "join '','' (map JSON_stringify xs) @ CHR '']'' # rest = c # cs"
      "\<not> is_ws c" "c \<noteq> CHR '']''"
      using element_head[OF False] by blast
    have "parse_value (Suc m) (CHR ''['' # join '','' (map JSON_stringify xs) @ CHR '']'' # rest)
            = Some (JArr xs, rest)"
      using el h by (simp add: skip_ws_nonws)
    then show ?thesis using n by simp
  qed
next
  case (JObj kvs)
  from JObj.prems(2) obtain m where n: "n = Suc m"
    and m: "sum_list (map (\<lambda>kv. Suc (fuel (snd kv))) kvs) \<le> m"
    by (cases n) auto
  from JObj.prems(1) have dist: "distinct (map fst kvs)" by simp
  show ?case
  proof (cases "kvs = []")
    case True
    then show ?thesis using n by simp
  next
    case False
    let ?body = "join '','' (map (\<lambda>kv. quote (fst kv) @ '':'' @ JSON_stringify (snd kv)) kvs)"
    have mem: "parse_members m (?body @ CHR ''}'' # rest) = Some (kvs, rest)"
    proof (rule parse_members_join[OF _ False m])
      fix kv n rest assume a: "kv \<in> set kvs" "fuel (snd kv) \<le> n" "value_end rest"
      from a(1) JObj.prems(1) have "wf_json (snd kv)" by (simp add: list_all_iff)
      moreover have "snd kv \<in> Basic_BNFs.snds kv" by (cases kv) simp
      ultimately show "parse_value n (JSON_stringify (snd kv) @ rest) = Some (snd kv, rest)"
        using JObj.IH[OF a(1)] a(2,3) by blast
    qed
    obtain cs where h: "?body @ CHR ''}'' # rest = CHR 0x22 # cs"
      using member_head[OF False] by blast
    have "parse_value (Suc m) (CHR ''{'' # ?body @ CHR ''}'' # rest) = Some (JObj kvs, rest)"
      using mem h by (simp add: obj_of_distinct[OF dist])
    then show ?thesis using n by simp
  qed
qed

lemma join_length:
  "length (join sep xs) = sum_list (map length xs) + (length xs - 1) * length sep"
  by (induction sep xs rule: join.induct) simp_all

lemma fuel_le_length: "fuel v \<le> length (JSON_stringify v)"
proof (induction v)
  case (JArr xs)
  have "sum_list (map (\<lambda>x. Suc (fuel x)) xs) \<le> sum_list (map (\<lambda>x. Suc (length (JSON_stringify x))) xs)"
    using JArr by (intro sum_list_mono) simp
  also have "\<dots> = sum_list (map length (map JSON_stringify xs)) + length xs"
    by (induction xs) simp_all
  finally show ?case by (cases xs) (simp_all add: join_length)
next
  case (JObj kvs)
  have "sum_list (map (\<lambda>kv. Suc (fuel (snd kv))) kvs)
          \<le> sum_list (map (\<lambda>kv. Suc (length (JSON_stringify (snd kv)))) kvs)"
  proof (intro sum_list_mono)
    fix kv assume "kv \<in> set kvs"
    moreover have "snd kv \<in> Basic_BNFs.snds kv" by (cases kv) simp
    ultimately show "Suc (fuel (snd kv)) \<le> Suc (length (JSON_stringify (snd kv)))"
      using JObj by simp
  qed
  also have "\<dots> \<le> sum_list (map length (map (\<lambda>kv. quote (fst kv) @ '':'' @ JSON_stringify (snd kv)) kvs)) + length kvs"
    by (induction kvs) simp_all
  finally show ?case by (cases kvs) (simp_all add: join_length)
next
  case (JNum i)
  have "show_int i \<noteq> []" using show_int_head[of i] by auto
  then show ?case by (cases "show_int i") simp_all
qed (simp_all add: quote_def)

lemma JSON_roundtrip: "wf_json v \<Longrightarrow> JSON_parse (JSON_stringify v) = Some v"
proof -
  assume wf: "wf_json v"
  have "fuel v \<le> Suc (2 * length (JSON_stringify v))"
    using fuel_le_length[of v] by simp
  moreover have "value_end []" by (simp add: value_end_def)
  ultimately have "parse_value (Suc (2 * length (JSON_stringify v))) (JSON_stringify v @ []) = Some (v, [])"
    using wf by (intro parse_value_stringify)
  then show ?thesis by (simp add: JSON_parse_def skip_ws_def)
qed

subsection \<open>The parser's bound\<close>

lemma skip_ws_length: "length (skip_ws s) \<le> length s"
  by (simp add: skip_ws_def length_dropWhile_le)

lemma skip_ws_Cons_length: "skip_ws s = c # cs \<Longrightarrow> length cs < length s"
  using skip_ws_length[of s] by simp

lemma parse_string_body_consumes:
  "parse_string_body s = Some (x, r) \<Longrightarrow> length r < length s"
proof (induction s arbitrary: x r rule: parse_string_body.induct)
  case 1
  then show ?case by simp
next
  case (2 c cs)
  then show ?case
    by (auto split: if_splits list.splits option.splits) fastforce+
qed

lemma parse_int_consumes: "parse_int s = Some (i, r) \<Longrightarrow> length r < length s"
proof -
  assume a: "parse_int s = Some (i, r)"
  let ?s1 = "if (case s of [] \<Rightarrow> False | c # cs \<Rightarrow> c = CHR ''-'') then tl s else s"
  from a have ne: "takeWhile is_digit ?s1 \<noteq> []" and r: "r = dropWhile is_digit ?s1"
    by (auto simp: parse_int_def Let_def split: if_splits)
  have "length (takeWhile is_digit ?s1) + length (dropWhile is_digit ?s1) = length ?s1"
    by (metis length_append takeWhile_dropWhile_id)
  with ne have "length (dropWhile is_digit ?s1) < length ?s1"
    by (cases "takeWhile is_digit ?s1") auto
  moreover have "length ?s1 \<le> length s" by (cases s) auto
  ultimately show ?thesis using r by simp
qed


lemma parse_consumes:
  "(\<forall>s v r. parse_value n s = Some (v, r) \<longrightarrow> length r < length s)
   \<and> (\<forall>s vs r. parse_elements n s = Some (vs, r) \<longrightarrow> length r < length s)
   \<and> (\<forall>s kvs r. parse_members n s = Some (kvs, r) \<longrightarrow> length r < length s)"
proof (induction n)
  case 0
  show ?case by simp
next
  case (Suc n)
  then have V: "\<And>s v r. parse_value n s = Some (v, r) \<Longrightarrow> length r < length s"
    and E: "\<And>s vs r. parse_elements n s = Some (vs, r) \<Longrightarrow> length r < length s"
    and M: "\<And>s kvs r. parse_members n s = Some (kvs, r) \<Longrightarrow> length r < length s"
    by blast+
  have v: "length r < length s" if a: "parse_value (Suc n) s = Some (v, r)" for s v r
  proof (cases "skip_ws s")
    case Nil
    with a show ?thesis by simp
  next
    case (Cons c cs)
    note lc = skip_ws_Cons_length[OF Cons]
    have l2: "length (skip_ws cs) \<le> length cs" by (rule skip_ws_length)
    consider (obj) "c = CHR ''{''" | (arr) "c \<noteq> CHR ''{''" "c = CHR ''[''"
      | (str) "c \<noteq> CHR ''{''" "c \<noteq> CHR ''[''" "c = CHR 0x22"
      | (other) "c \<noteq> CHR ''{''" "c \<noteq> CHR ''[''" "c \<noteq> CHR 0x22" by blast
    then show ?thesis
    proof cases
      case obj
      show ?thesis
      proof (cases "take 1 (skip_ws cs) = ''}''")
        case True
        with a Cons obj have "r = drop 1 (skip_ws cs)" by simp
        with lc l2 show ?thesis by simp
      next
        case False
        with a Cons obj obtain kvs where "parse_members n cs = Some (kvs, r)" by auto
        from M[OF this] lc show ?thesis by simp
      qed
    next
      case arr
      show ?thesis
      proof (cases "take 1 (skip_ws cs) = '']''")
        case True
        with a Cons arr have "r = drop 1 (skip_ws cs)" by simp
        with lc l2 show ?thesis by simp
      next
        case False
        with a Cons arr obtain vs where "parse_elements n cs = Some (vs, r)" by auto
        from E[OF this] lc show ?thesis by simp
      qed
    next
      case str
      with a Cons obtain x where "parse_string_body cs = Some (x, r)" by auto
      from parse_string_body_consumes[OF this] lc show ?thesis by simp
    next
      case other
      have ls: "length (c # cs) \<le> length s" using lc by simp
      from a Cons other consider "r = drop 4 (c # cs)" | "r = drop 5 (c # cs)"
        | i where "parse_int (c # cs) = Some (i, r)"
        by (auto split: if_splits)
      then show ?thesis
      proof cases
        case 3
        from parse_int_consumes[OF this] ls show ?thesis by simp
      qed (use ls in auto)
    qed
  qed
  have e: "length r < length s" if a: "parse_elements (Suc n) s = Some (vs, r)" for s vs r
  proof -
    from a obtain v r1 where p: "parse_value n s = Some (v, r1)"
      by (auto split: option.splits)
    note l1 = V[OF p]
    from a p obtain c cs where k: "skip_ws r1 = c # cs"
      by (cases "skip_ws r1") auto
    note l2 = skip_ws_Cons_length[OF k]
    from a p k consider vs' where "parse_elements n cs = Some (vs', r)" | "r = cs"
      by (auto split: if_splits)
    then show ?thesis
    proof cases
      case 1
      from E[OF this] l1 l2 show ?thesis by simp
    next
      case 2
      with l1 l2 show ?thesis by simp
    qed
  qed
  have m: "length r < length s" if a: "parse_members (Suc n) s = Some (kvs, r)" for s kvs r
  proof -
    from a obtain c cs where k0: "skip_ws s = c # cs" by (cases "skip_ws s") auto
    note l0 = skip_ws_Cons_length[OF k0]
    from a k0 obtain key r1 where ps: "parse_string_body cs = Some (key, r1)"
      by (auto split: if_splits option.splits)
    note l1 = parse_string_body_consumes[OF ps]
    from a k0 ps obtain c1 r2 where k1: "skip_ws r1 = c1 # r2"
      by (cases "skip_ws r1") (auto split: if_splits)
    note l2 = skip_ws_Cons_length[OF k1]
    from a k0 ps k1 obtain v r3 where pv: "parse_value n r2 = Some (v, r3)"
      by (auto split: if_splits option.splits)
    note l3 = V[OF pv]
    from a k0 ps k1 pv obtain c2 r4 where k2: "skip_ws r3 = c2 # r4"
      by (cases "skip_ws r3") (auto split: if_splits)
    note l4 = skip_ws_Cons_length[OF k2]
    from a k0 ps k1 pv k2 consider kvs' where "parse_members n r4 = Some (kvs', r)" | "r = r4"
      by (auto split: if_splits)
    then show ?thesis
    proof cases
      case 1
      from M[OF this] l0 l1 l2 l3 l4 show ?thesis by simp
    next
      case 2
      with l0 l1 l2 l3 l4 show ?thesis by simp
    qed
  qed
  from v e m show ?case by blast
qed


lemma parse_fuel_step:
  "(\<forall>s. 2 * length s < n \<longrightarrow> parse_value (Suc n) s = parse_value n s)
   \<and> (\<forall>s. 2 * length s + 1 < n \<longrightarrow> parse_elements (Suc n) s = parse_elements n s)
   \<and> (\<forall>s. 2 * length s + 1 < n \<longrightarrow> parse_members (Suc n) s = parse_members n s)"
proof (induction n)
  case 0
  show ?case by simp
next
  case (Suc n)
  then have V: "\<And>s. 2 * length s < n \<Longrightarrow> parse_value (Suc n) s = parse_value n s"
    and E: "\<And>s. 2 * length s + 1 < n \<Longrightarrow> parse_elements (Suc n) s = parse_elements n s"
    and M: "\<And>s. 2 * length s + 1 < n \<Longrightarrow> parse_members (Suc n) s = parse_members n s"
    by blast+
  note C = parse_consumes[of n]
  have v: "parse_value (Suc (Suc n)) s = parse_value (Suc n) s" if a: "2 * length s < Suc n" for s
  proof (cases "skip_ws s")
    case Nil
    then show ?thesis by simp
  next
    case (Cons c cs)
    from skip_ws_Cons_length[OF Cons] a have "2 * length cs + 1 < n" by simp
    then have "parse_elements (Suc n) cs = parse_elements n cs"
      "parse_members (Suc n) cs = parse_members n cs"
      using E M by blast+
    with Cons show ?thesis by simp
  qed
  have e: "parse_elements (Suc (Suc n)) s = parse_elements (Suc n) s" if a: "2 * length s + 1 < Suc n" for s
  proof -
    from a have pv: "parse_value (Suc n) s = parse_value n s" using V by simp
    show ?thesis
    proof (cases "parse_value n s")
      case None
      with pv show ?thesis by simp
    next
      case (Some p)
      obtain x r1 where p: "p = (x, r1)" by (cases p)
      with Some C have l1: "length r1 < length s" by blast
      show ?thesis
      proof (cases "skip_ws r1")
        case Nil
        with pv Some p show ?thesis by simp
      next
        case (Cons c cs)
        from skip_ws_Cons_length[OF Cons] l1 a have "2 * length cs + 1 < n" by simp
        then have "parse_elements (Suc n) cs = parse_elements n cs" using E by blast
        with pv Some p Cons show ?thesis by simp
      qed
    qed
  qed
  have m: "parse_members (Suc (Suc n)) s = parse_members (Suc n) s" if a: "2 * length s + 1 < Suc n" for s
  proof (cases "skip_ws s")
    case Nil
    then show ?thesis by simp
  next
    case k0: (Cons c cs)
    note l0 = skip_ws_Cons_length[OF k0]
    show ?thesis
    proof (cases "parse_string_body cs")
      case None
      with k0 show ?thesis by simp
    next
      case (Some p)
      obtain key r1 where p: "p = (key, r1)" by (cases p)
      with Some have l1: "length r1 < length cs" using parse_string_body_consumes by blast
      show ?thesis
      proof (cases "skip_ws r1")
        case Nil
        with k0 Some p show ?thesis by simp
      next
        case k1: (Cons c1 r2)
        note l2 = skip_ws_Cons_length[OF k1]
        from l0 l1 l2 a have "2 * length r2 < n" by simp
        then have pv: "parse_value (Suc n) r2 = parse_value n r2" using V by blast
        show ?thesis
        proof (cases "parse_value n r2")
          case None
          with pv k0 Some p k1 show ?thesis by simp
        next
          case v: (Some q)
          obtain x r3 where q: "q = (x, r3)" by (cases q)
          with v C have l3: "length r3 < length r2" by blast
          show ?thesis
          proof (cases "skip_ws r3")
            case Nil
            with pv k0 Some p k1 v q show ?thesis by simp
          next
            case k2: (Cons c2 r4)
            from skip_ws_Cons_length[OF k2] l0 l1 l2 l3 a have "2 * length r4 + 1 < n" by simp
            then have "parse_members (Suc n) r4 = parse_members n r4" using M by blast
            with pv k0 Some p k1 v q k2 show ?thesis by simp
          qed
        qed
      qed
    qed
  qed
  from v e m show ?case by blast
qed

lemma parse_value_fuel: "2 * length s < n \<Longrightarrow> parse_value (n + k) s = parse_value n s"
proof (induction k)
  case 0
  then show ?case by simp
next
  case (Suc k)
  then have "2 * length s < n + k" by simp
  then have "parse_value (Suc (n + k)) s = parse_value (n + k) s"
    using parse_fuel_step[of "n + k"] by blast
  with Suc show ?case by simp
qed

text \<open>The bound that \<open>JSON_parse\<close> passes is enough: a larger one gives the same result.\<close>

lemma JSON_parse_fuel:
  "Suc (2 * length s) \<le> n \<Longrightarrow>
     JSON_parse s = (case parse_value n s of
                       None \<Rightarrow> None
                     | Some (v, r) \<Rightarrow> if skip_ws r = [] then Some v else None)"
proof -
  assume "Suc (2 * length s) \<le> n"
  then obtain k where "n = Suc (2 * length s) + k" using le_Suc_ex by blast
  then have "parse_value n s = parse_value (Suc (2 * length s)) s"
    using parse_value_fuel[of s "Suc (2 * length s)" k] by simp
  then show ?thesis by (simp add: JSON_parse_def)
qed

section \<open>Properties of the access tokens\<close>

lemma createSignature_no_dot: "CHR ''.'' \<notin> set (createSignature hmac_digest data)"
  by (simp add: createSignature_def base64UrlEncode_no_dot)

lemma split_three:
  assumes "CHR ''.'' \<notin> set h" "CHR ''.'' \<notin> set p" "CHR ''.'' \<notin> set s"
  shows "split_on (CHR ''.'') (h @ ''.'' @ p @ ''.'' @ s) = [h, p, s]"
  using assms by (simp add: split_on_append split_on_no_sep)

lemma split_signed_token:
  "split_on (CHR ''.'') (signed_token hmac_digest claims) =
     [base64UrlEncode (JSON_stringify (JObj [(''alg'', JStr ''HS256''), (''typ'', JStr ''JWT'')])),
      base64UrlEncode (JSON_stringify claims),
      createSignature hmac_digest
        (base64UrlEncode (JSON_stringify (JObj [(''alg'', JStr ''HS256''), (''typ'', JStr ''JWT'')]))
           @ ''.'' @ base64UrlEncode (JSON_stringify claims))]"
  unfolding signed_token_def Let_def
  by (rule split_three) (rule base64UrlEncode_no_dot base64UrlEncode_no_dot createSignature_no_dot)+

lemma signed_token_nonempty: "signed_token hmac_digest claims \<noteq> []"
  using split_signed_token[of hmac_digest claims] by auto

lemma verify_signed_token:
  assumes "wf_json claims"
  shows "verifyAccessToken hmac_digest date_now (signed_token hmac_digest claims) =
          (if claims = JNull then Inl TokenVerificationError
           else case get_prop claims ''exp'' of
                  None \<Rightarrow> Inr claims
                | Some e \<Rightarrow>
                    if js_truthy e \<and> js_less_than e (date_now div 1000) then Inl TokenExpired
                    else Inr claims)"
  unfolding verifyAccessToken_def
  by (simp only: signed_token_nonempty split_signed_token base64Url_roundtrip JSON_roundtrip[OF assms]
      list.case option.case Let_def if_False simp_thms)

lemma generate_is_signed:
  "generateAccessToken hmac_digest date_now payload expiresIn =
     signed_token hmac_digest
       (JObj (obj_set (obj_set payload ''iat'' (JNum (date_now div 1000))) ''exp''
          (JNum (date_now div 1000 + expiresIn))))"
  by (simp add: generateAccessToken_def signed_token_def Let_def)


lemma obj_set_keys: "fst ` set (obj_set kvs k v) = insert k (fst ` set kvs)"
  by (induction kvs) auto

lemma obj_set_distinct: "distinct (map fst kvs) \<Longrightarrow> distinct (map fst (obj_set kvs k v))"
proof (induction kvs)
  case Nil
  then show ?case by simp
next
  case (Cons kv kvs)
  then show ?case using obj_set_keys[of kvs k v] by (auto simp: image_iff)
qed

lemma obj_set_all: "list_all P kvs \<Longrightarrow> P (k, v) \<Longrightarrow> list_all P (obj_set kvs k v)"
  by (induction kvs) auto

lemma map_of_obj_set: "map_of (obj_set kvs k v) = (map_of kvs)(k \<mapsto> v)"
  by (induction kvs) (auto simp: fun_eq_iff)

lemma wf_obj_set: "wf_json (JObj kvs) \<Longrightarrow> wf_json v \<Longrightarrow> wf_json (JObj (obj_set kvs k v))"
  by (simp add: obj_set_distinct obj_set_all)

lemma verify_generated:
  assumes "wf_json (JObj payload)"
  shows "verifyAccessToken hmac_digest date_now' (generateAccessToken hmac_digest date_now payload ttl) =
           (if date_now div 1000 + ttl \<noteq> 0 \<and> date_now div 1000 + ttl < date_now' div 1000
            then Inl TokenExpired
            else Inr (JObj (obj_set (obj_set payload ''iat'' (JNum (date_now div 1000))) ''exp''
                   (JNum (date_now div 1000 + ttl)))))"
proof -
  let ?claims = "JObj (obj_set (obj_set payload ''iat'' (JNum (date_now div 1000))) ''exp''
                   (JNum (date_now div 1000 + ttl)))"
  have wf: "wf_json ?claims"
    using assms by (intro wf_obj_set) simp_all
  have e: "get_prop ?claims ''exp'' = Some (JNum (date_now div 1000 + ttl))"
    by (simp add: map_of_obj_set)
  show ?thesis
    unfolding generate_is_signed verify_signed_token[OF wf] e
    by (simp add: js_less_than_def)
qed

text \<open>
  C8 (as the code has it). A token issued from a claims object whose keys are distinct,
  validated at any time up to its expiry, is accepted, and the value returned is the claims
  object with \<open>iat\<close> set to the time of issue and \<open>exp\<close> to that time plus the time to
  live (in seconds): the input's other properties come back unchanged and in order, but the
  result is the input only when the input already carried these two values.
\<close>

theorem credential_roundtrip:
  assumes "wf_json (JObj payload)"
    and "date_now' div 1000 \<le> date_now div 1000 + ttl"
  shows "verifyAccessToken hmac_digest date_now' (generateAccessToken hmac_digest date_now payload ttl) =
           Inr (JObj (obj_set (obj_set payload ''iat'' (JNum (date_now div 1000))) ''exp''
                  (JNum (date_now div 1000 + ttl))))
       \<and> map_of (obj_set (obj_set payload ''iat'' (JNum (date_now div 1000))) ''exp''
                  (JNum (date_now div 1000 + ttl)))
           = (map_of payload)(''iat'' \<mapsto> JNum (date_now div 1000),
                              ''exp'' \<mapsto> JNum (date_now div 1000 + ttl))"
  using assms(2) by (simp add: verify_generated[OF assms(1)] map_of_obj_set)

theorem credential_roundtrip_witness:
  "verifyAccessToken example_hmac 1030000
     (generateAccessToken example_hmac 1000000
        [(''contentId'', JStr ''c1''), (''signature'', JStr ''sig1''),
         (''payerWallet'', JStr ''unknown''), (''type'', JStr ''payment'')] 60) =
   Inr (JObj [(''contentId'', JStr ''c1''), (''signature'', JStr ''sig1''),
              (''payerWallet'', JStr ''unknown''), (''type'', JStr ''payment''),
              (''iat'', JNum 1000), (''exp'', JNum 1060)])"
proof -
  let ?payload = "[(''contentId'', JStr ''c1''), (''signature'', JStr ''sig1''),
         (''payerWallet'', JStr ''unknown''), (''type'', JStr ''payment'')]"
  have wf: "wf_json (JObj ?payload)" by simp
  have t: "(1030000::int) div 1000 \<le> 1000000 div 1000 + 60" by simp
  show ?thesis
    using conjunct1[OF credential_roundtrip[of ?payload 1030000 1000000 60 example_hmac, OF wf t]]
    by simp
qed

theorem credential_roundtrip_counterexample:
  "verifyAccessToken example_hmac 1030000
     (generateAccessToken example_hmac 1000000 [(''contentId'', JStr ''c1'')] 60)
   \<noteq> Inr (JObj [(''contentId'', JStr ''c1'')])"
proof -
  have wf: "wf_json (JObj [(''contentId'', JStr ''c1'')])" by simp
  show ?thesis
    unfolding verify_generated[OF wf] by simp
qed





lemma token_access_structure:
  assumes "token_grants_access hmac_digest date_now cid token"
  shows "\<exists>h p s payload. split_on (CHR ''.'') token = [h, p, s]
           \<and> s = createSignature hmac_digest (h @ ''.'' @ p)
           \<and> JSON_parse (base64UrlDecode p) = Some payload"
  using assms
  by (auto simp: token_grants_access_def verifyAccessToken_def Let_def
      split: if_splits list.splits option.splits sum.splits)





subsection \<open>Tokens at the gate\<close>

text \<open>The gate lets a request through on its token exactly when \<open>token_grants_access\<close> holds.\<close>

lemma gate_grants_by_token:
  assumes "\<not> fault fs" and "content d cid = Some row"
    and "\<not> (case expires_at row of None \<Rightarrow> False | Some t \<Rightarrow> t < date_now)"
    and "paymentProof = Some t" and "t \<noteq> []"
  shows "(\<exists>payload. fst (x402PaymentGate hmac_digest post_verify date_now fs d cid paymentProof)
            = GateNextToken payload)
         \<longleftrightarrow> token_grants_access hmac_digest date_now cid t"
  using assms
  by (auto simp: x402PaymentGate_def token_grants_access_def js_not_def field_text_def Let_def
      split: sum.splits)

text \<open>The token that the verification route issues opens the gate for its listing until it
  expires, seven days later.\<close>

lemma issued_token_grants_access:
  assumes "date_now' div 1000 \<le> date_now div 1000 + SEVEN_DAYS"
  shows "token_grants_access hmac_digest date_now' cid
           (generateAccessToken hmac_digest date_now
              [(''contentId'', JStr cid), (''signature'', JStr sig),
               (''payerWallet'', JStr w), (''type'', JStr ''payment'')] SEVEN_DAYS)"
proof -
  have wf: "wf_json (JObj [(''contentId'', JStr cid), (''signature'', JStr sig),
               (''payerWallet'', JStr w), (''type'', JStr ''payment'')])"
    by simp
  show ?thesis
    unfolding token_grants_access_def verify_generated[OF wf]
    using assms by simp
qed

section \<open>Properties of the verification route\<close>

lemma example_id_valid: "isValidUUID example_id"
  by (simp add: isValidUUID_def example_id_def is_hex_def hex_val_def)

lemma example_id_nonempty: "example_id \<noteq> []"
  by (simp add: example_id_def)

lemma example_signature_valid: "signatureRegex example_signature"
  by (simp add: signatureRegex_def example_signature_def list_all_iff is_base58_def)

lemma example_signature_not_sim: "take 4 example_signature \<noteq> ''sim_''"
  by (simp add: example_signature_def numeral_eq_Suc)

lemma example_signature_nonempty: "example_signature \<noteq> []"
  by (simp add: example_signature_def numeral_eq_Suc)

lemma validate_example:
  "signatureRegex sig \<Longrightarrow> sig \<noteq> [] \<Longrightarrow> validatePaymentRequest ok (example_body sig) = None"
  by (simp add: validatePaymentRequest_def example_body_def js_not_def field_text_def
      example_id_valid example_id_nonempty)

lemma fault_Nil [simp]: "fault [] = False"
  by (simp add: fault_def)

text \<open>What the handler does with a request that has passed validation, without storage faults.\<close>

lemma verify_route_validated:
  assumes "validatePaymentRequest ok body = None"
    and "contentId body = Some cid" and "cid \<noteq> []"
    and "transactionSignature body = Some sig" and "sig \<noteq> []"
  shows "verify_route e ok hmac_digest date_now getTransaction [] d body =
     (case content d cid of
        None \<Rightarrow> \<lparr>response = ContentNotFound, db_after = d, ledger_calls = []\<rparr>
      | Some row \<Rightarrow>
          (let logged = log_payment [] d
                 \<lparr>content_id = cid, payer_wallet = or_unknown (payerWallet body),
                  amount_usdc = price_usdc row, transaction_signature = sig,
                  payment_status = Completed\<rparr>;
               accessToken = generateAccessToken hmac_digest date_now
                 [(''contentId'', JStr cid), (''signature'', JStr sig),
                  (''payerWallet'', JStr (or_unknown (payerWallet body))),
                  (''type'', JStr ''payment'')] SEVEN_DAYS;
               downloadUrl = FRONTEND_URL e @ ''/'' @ cid @ ''?payment='' @ accessToken
           in
           if take 4 sig = ''sim_'' then
             \<lparr>response = VerifiedSimulated accessToken downloadUrl,
              db_after = snd logged, ledger_calls = []\<rparr>
           else
             (case verifySolanaTransaction getTransaction sig (creator_wallet row) (price_usdc row) of
                Inl failure \<Rightarrow> \<lparr>response = PaymentRequired failure, db_after = d, ledger_calls = [sig]\<rparr>
              | Inr details \<Rightarrow>
                  \<lparr>response = VerifiedOnChain accessToken downloadUrl details,
                   db_after = snd logged, ledger_calls = [sig]\<rparr>)))"
proof -
  have lp: "\<And>row r. content d cid = Some row \<Longrightarrow>
      fst (log_payment [] d \<lparr>content_id = cid, payer_wallet = or_unknown (payerWallet body),
                  amount_usdc = price_usdc row, transaction_signature = sig,
                  payment_status = Completed\<rparr>)"
    by (auto simp: log_payment_def insert_payment_log_def)
  show ?thesis
    using assms lp
    by (auto simp: verify_route_def js_not_def field_text_def Let_def split: option.splits sum.splits)
qed

lemma log_payment_no_fault:
  assumes "content d (content_id row) = Some c"
  shows "log_payment [] d row =
     (True, increment_payments (content_id row) (d\<lparr>payment_logs := payment_logs d @ [row]\<rparr>))"
  using assms by (auto simp: log_payment_def insert_payment_log_def)


lemma example_content: "content (example_db t) example_id =
    Some \<lparr>price_usdc = 10, creator_wallet = ''creator'', expires_at = t, payments = 0\<rparr>"
  by (simp add: example_db_def)

lemma sim_free_valid: "signatureRegex ''sim_free''"
  by (simp add: signatureRegex_def)

lemma simulated_signature_skips_ledger:
  assumes "validatePaymentRequest ok body = None"
    and "contentId body = Some cid" and "cid \<noteq> []"
    and "transactionSignature body = Some sig" and "take 4 sig = ''sim_''"
    and "content d cid = Some row"
  shows "\<exists>token url. response (verify_route e ok hmac_digest date_now getTransaction [] d body)
            = VerifiedSimulated token url"
    and "ledger_calls (verify_route e ok hmac_digest date_now getTransaction [] d body) = []"
    and "verify_route e ok hmac_digest date_now getTransaction [] d body
           = verify_route e ok hmac_digest date_now getTransaction' [] d body"
proof -
  from assms(5) have ne: "sig \<noteq> []" by auto
  note r = verify_route_validated[OF assms(1,2,3,4) ne]
  show "\<exists>token url. response (verify_route e ok hmac_digest date_now getTransaction [] d body)
            = VerifiedSimulated token url"
    unfolding r using assms(5,6) by (simp add: Let_def)
  show "ledger_calls (verify_route e ok hmac_digest date_now getTransaction [] d body) = []"
    unfolding r using assms(5,6) by (simp add: Let_def)
  show "verify_route e ok hmac_digest date_now getTransaction [] d body
           = verify_route e ok hmac_digest date_now getTransaction' [] d body"
    unfolding r using assms(5,6) by (simp add: Let_def)
qed

text \<open>
  C1 (the code at the failing input). With \<open>NODE_ENV = production\<close>, a request for an
  existing listing whose signature is \<open>sim_free\<close> is answered as verified, with an access
  token; the payment is recorded and counted, and the ledger is never asked, whatever the
  ledger and the digest function are. The handler does not read the environment.
\<close>

theorem simulated_payment_accepted_in_production:
  "verify_route production ok hmac_digest date_now getTransaction [] (example_db None)
      (example_body ''sim_free'') =
   \<lparr>response = VerifiedSimulated
        (generateAccessToken hmac_digest date_now
           [(''contentId'', JStr example_id), (''signature'', JStr ''sim_free''),
            (''payerWallet'', JStr ''unknown''), (''type'', JStr ''payment'')] SEVEN_DAYS)
        (''https://paywall.example/'' @ example_id @ ''?payment='' @
         generateAccessToken hmac_digest date_now
           [(''contentId'', JStr example_id), (''signature'', JStr ''sim_free''),
            (''payerWallet'', JStr ''unknown''), (''type'', JStr ''payment'')] SEVEN_DAYS),
     db_after =
       \<lparr>content = [example_id \<mapsto>
          \<lparr>price_usdc = 10, creator_wallet = ''creator'', expires_at = None, payments = 1\<rparr>],
        payment_logs =
          [\<lparr>content_id = example_id, payer_wallet = ''unknown'', amount_usdc = 10,
            transaction_signature = ''sim_free'', payment_status = Completed\<rparr>]\<rparr>,
     ledger_calls = []\<rparr>"
proof -
  have v: "validatePaymentRequest ok (example_body ''sim_free'') = None"
    by (rule validate_example[OF sim_free_valid]) simp
  have b: "contentId (example_body ''sim_free'') = Some example_id"
    "transactionSignature (example_body ''sim_free'') = Some ''sim_free''"
    "payerWallet (example_body ''sim_free'') = None"
    by (simp_all add: example_body_def)
  have u: "or_unknown None = ''unknown''" by (simp add: or_unknown_def js_not_def)
  show ?thesis
    unfolding verify_route_validated[OF v b(1) example_id_nonempty b(2), simplified] b(3) u
    by (simp add: example_content log_payment_no_fault[where c="\<lparr>price_usdc = 10, creator_wallet = ''creator'', expires_at = None, payments = 0\<rparr>"]
        increment_payments_def production_def)
       (simp add: example_db_def Let_def)
qed


lemma example_body_fields:
  "contentId (example_body sig) = Some example_id"
  "transactionSignature (example_body sig) = Some sig"
  "payerWallet (example_body sig) = None"
  by (simp_all add: example_body_def)

lemma or_unknown_None: "or_unknown None = ''unknown''"
  by (simp add: or_unknown_def js_not_def)

lemma paying_ledger_verified:
  "verifySolanaTransaction paying_ledger sig ''creator'' 10 =
     Inr \<lparr>d_signature = sig, d_recipient = Some ''creator'', d_amount = Some 10,
          d_mint = USDC_MINT_MAINNET, d_blockTime = Some 1700000000, d_slot = 7\<rparr>"
  by (simp add: paying_ledger_def verifier_eval)

lemma missing_listing_rejected_before_ledger:
  assumes "validatePaymentRequest ok body = None"
    and "contentId body = Some cid"
    and "content d cid = None"
    and "\<not> fault fs"
  shows "verify_route e ok hmac_digest date_now getTransaction fs d body =
           \<lparr>response = ContentNotFound, db_after = d, ledger_calls = []\<rparr>"
  using assms
  by (auto simp: verify_route_def validatePaymentRequest_def js_not_def field_text_def Let_def
      split: option.splits if_splits)

text \<open>
  C7 (the code at the failing input). A listing that expired at time 1000 is still verified at
  time 2000: the ledger is asked and the payment accepted and recorded, while the payment gate
  and the handler of \<open>/initiate\<close> both answer that the content has expired. (A missing listing
  is rejected before the ledger is asked: \<open>missing_listing_rejected_before_ledger\<close>.)
\<close>

theorem expired_listing_still_verified:
  "verify_route production ok hmac_digest 2000 paying_ledger [] (example_db (Some 1000))
      (example_body example_signature) =
   \<lparr>response = VerifiedOnChain
        (generateAccessToken hmac_digest 2000
           [(''contentId'', JStr example_id), (''signature'', JStr example_signature),
            (''payerWallet'', JStr ''unknown''), (''type'', JStr ''payment'')] SEVEN_DAYS)
        (''https://paywall.example/'' @ example_id @ ''?payment='' @
         generateAccessToken hmac_digest 2000
           [(''contentId'', JStr example_id), (''signature'', JStr example_signature),
            (''payerWallet'', JStr ''unknown''), (''type'', JStr ''payment'')] SEVEN_DAYS)
        \<lparr>d_signature = example_signature, d_recipient = Some ''creator'', d_amount = Some 10,
          d_mint = USDC_MINT_MAINNET, d_blockTime = Some 1700000000, d_slot = 7\<rparr>,
     db_after =
       \<lparr>content = [example_id \<mapsto>
          \<lparr>price_usdc = 10, creator_wallet = ''creator'', expires_at = Some 1000, payments = 1\<rparr>],
        payment_logs =
          [\<lparr>content_id = example_id, payer_wallet = ''unknown'', amount_usdc = 10,
            transaction_signature = example_signature, payment_status = Completed\<rparr>]\<rparr>,
     ledger_calls = [example_signature]\<rparr>
   \<and> fst (x402PaymentGate hmac_digest post_verify 2000 [] (example_db (Some 1000)) example_id paymentProof)
       = GateGone
   \<and> initiate_handler facilitator_answers 2000 [] (example_db (Some 1000)) example_id = InitiateGone"
proof -
  have v: "validatePaymentRequest ok (example_body example_signature) = None"
    by (rule validate_example[OF example_signature_valid example_signature_nonempty])
  have 1: "verify_route production ok hmac_digest 2000 paying_ledger [] (example_db (Some 1000))
      (example_body example_signature) =
   \<lparr>response = VerifiedOnChain
        (generateAccessToken hmac_digest 2000
           [(''contentId'', JStr example_id), (''signature'', JStr example_signature),
            (''payerWallet'', JStr ''unknown''), (''type'', JStr ''payment'')] SEVEN_DAYS)
        (''https://paywall.example/'' @ example_id @ ''?payment='' @
         generateAccessToken hmac_digest 2000
           [(''contentId'', JStr example_id), (''signature'', JStr example_signature),
            (''payerWallet'', JStr ''unknown''), (''type'', JStr ''payment'')] SEVEN_DAYS)
        \<lparr>d_signature = example_signature, d_recipient = Some ''creator'', d_amount = Some 10,
          d_mint = USDC_MINT_MAINNET, d_blockTime = Some 1700000000, d_slot = 7\<rparr>,
     db_after =
       \<lparr>content = [example_id \<mapsto>
          \<lparr>price_usdc = 10, creator_wallet = ''creator'', expires_at = Some 1000, payments = 1\<rparr>],
        payment_logs =
          [\<lparr>content_id = example_id, payer_wallet = ''unknown'', amount_usdc = 10,
            transaction_signature = example_signature, payment_status = Completed\<rparr>]\<rparr>,
     ledger_calls = [example_signature]\<rparr>"
    unfolding verify_route_validated[OF v example_body_fields(1) example_id_nonempty
        example_body_fields(2) example_signature_nonempty] example_body_fields(3) or_unknown_None
    by (simp add: example_content example_signature_not_sim paying_ledger_verified
        log_payment_no_fault[where c="\<lparr>price_usdc = 10, creator_wallet = ''creator'', expires_at = Some 1000, payments = 0\<rparr>"]
        increment_payments_def production_def)
       (simp add: example_db_def Let_def)
  have 2: "fst (x402PaymentGate hmac_digest post_verify 2000 [] (example_db (Some 1000)) example_id paymentProof)
       = GateGone"
    by (simp add: x402PaymentGate_def example_content)
  have 3: "initiate_handler facilitator_answers 2000 [] (example_db (Some 1000)) example_id = InitiateGone"
    by (simp add: initiate_handler_def example_content)
  from 1 2 3 show ?thesis by blast
qed


lemma verify_example_on:
  assumes "content d example_id = Some row" and "creator_wallet row = ''creator''" and "price_usdc row = 10"
  shows "db_after (verify_route production ok hmac_digest date_now paying_ledger [] d
            (example_body example_signature)) =
         d\<lparr>content := (content d)(example_id \<mapsto> row\<lparr>payments := payments row + 1\<rparr>),
           payment_logs := payment_logs d @
            [\<lparr>content_id = example_id, payer_wallet = ''unknown'', amount_usdc = 10,
              transaction_signature = example_signature, payment_status = Completed\<rparr>]\<rparr>"
    and "\<exists>tok url details. response (verify_route production ok hmac_digest date_now paying_ledger [] d
            (example_body example_signature)) = VerifiedOnChain tok url details"
proof -
  have v: "validatePaymentRequest ok (example_body example_signature) = None"
    by (rule validate_example[OF example_signature_valid example_signature_nonempty])
  note r = verify_route_validated[OF v example_body_fields(1) example_id_nonempty
        example_body_fields(2) example_signature_nonempty, of production hmac_digest date_now paying_ledger d]
  have lp: "log_payment [] d \<lparr>content_id = example_id, payer_wallet = ''unknown'', amount_usdc = 10,
              transaction_signature = example_signature, payment_status = Completed\<rparr>
        = (True, increment_payments example_id (d\<lparr>payment_logs := payment_logs d @
            [\<lparr>content_id = example_id, payer_wallet = ''unknown'', amount_usdc = 10,
              transaction_signature = example_signature, payment_status = Completed\<rparr>]\<rparr>))"
    using log_payment_no_fault[of d "\<lparr>content_id = example_id, payer_wallet = ''unknown'', amount_usdc = 10,
              transaction_signature = example_signature, payment_status = Completed\<rparr>" row] assms(1)
    by simp
  show "db_after (verify_route production ok hmac_digest date_now paying_ledger [] d
            (example_body example_signature)) =
         d\<lparr>content := (content d)(example_id \<mapsto> row\<lparr>payments := payments row + 1\<rparr>),
           payment_logs := payment_logs d @
            [\<lparr>content_id = example_id, payer_wallet = ''unknown'', amount_usdc = 10,
              transaction_signature = example_signature, payment_status = Completed\<rparr>]\<rparr>"
    unfolding r example_body_fields(3) or_unknown_None
    using assms
    by (simp add: example_signature_not_sim paying_ledger_verified lp increment_payments_def Let_def)
  show "\<exists>tok url details. response (verify_route production ok hmac_digest date_now paying_ledger [] d
            (example_body example_signature)) = VerifiedOnChain tok url details"
    unfolding r example_body_fields(3) or_unknown_None
    using assms
    by (simp add: example_signature_not_sim paying_ledger_verified lp Let_def)
qed


subsection \<open>Recording through DatabaseManager.createPayment\<close>

lemma query_loop_result:
  "query_loop k e stmt fs d = (res, d', fs') \<Longrightarrow>
     (\<exists>e'. res = Inl e' \<and> d' = d) \<or> (\<exists>r. res = Inr r \<and> stmt d = Inr (r, d'))"
proof (induction k arbitrary: e fs)
  case 0
  then show ?case by auto
next
  case (Suc k)
  show ?case
  proof (cases "attempt stmt fs d")
    case (fields a d1 fs1)
    show ?thesis
    proof (cases a)
      case (Inl e1)
      with fields have "d1 = d"
        by (auto simp: attempt_def split: if_splits sum.splits)
      with Suc.prems fields Inl have "query_loop k e1 stmt fs1 d = (res, d', fs')" by simp
      then show ?thesis by (rule Suc.IH)
    next
      case (Inr r)
      with fields have "stmt d = Inr (r, d1)"
        by (auto simp: attempt_def split: if_splits sum.splits)
      with Suc.prems fields Inr show ?thesis by auto
    qed
  qed
qed

lemma dm_query_result:
  "dm_query stmt fs d = (res, d', fs') \<Longrightarrow>
     (\<exists>e'. res = Inl e' \<and> d' = d) \<or> (\<exists>r. res = Inr r \<and> stmt d = Inr (r, d'))"
  unfolding dm_query_def by (rule query_loop_result)

lemma attempt_no_faults: "stmt d = Inr (r, d') \<Longrightarrow> attempt stmt [] d = (Inr r, d', [])"
  by (simp add: attempt_def fault_def)

lemma query_loop_no_faults:
  "stmt d = Inr (r, d') \<Longrightarrow> query_loop (Suc k) e stmt [] d = (Inr r, d', [])"
  by (simp add: attempt_no_faults)

lemma dm_query_no_faults: "stmt d = Inr (r, d') \<Longrightarrow> dm_query stmt [] d = (Inr r, d', [])"
  unfolding dm_query_def by (simp add: numeral_3_eq_3 attempt_no_faults)

text \<open>
  The outcomes of \<open>createPayment\<close> under any storage faults: it fails and stores nothing; or a
  record with this signature exists, and it is returned with nothing stored; or none exists,
  and both the record and the counter increment are stored (both or neither).
\<close>

lemma createPayment_outcomes:
  assumes "createPayment paymentData fs d = (res, d', fs')"
  shows "(\<exists>e. res = Inl e \<and> d' = d)
       \<or> (\<exists>r rs. payments_by_signature (transaction_signature paymentData) d = r # rs
             \<and> res = Inr r \<and> d' = d)
       \<or> (payments_by_signature (transaction_signature paymentData) d = []
          \<and> res = Inr paymentData
          \<and> d' = increment_payments (content_id paymentData)
                    (d\<lparr>payment_logs := payment_logs d @ [paymentData]\<rparr>))"
proof -
  obtain a d1 fs1 where q1: "dm_query (getPaymentBySignature (transaction_signature paymentData)) fs d = (a, d1, fs1)"
    by (cases "dm_query (getPaymentBySignature (transaction_signature paymentData)) fs d") auto
  from dm_query_result[OF q1] have d1: "d1 = d"
    by (auto simp: getPaymentBySignature_def)
  show ?thesis
  proof (cases a)
    case (Inl e)
    with assms q1 d1 show ?thesis by (auto simp: createPayment_def)
  next
    case (Inr existing)
    with dm_query_result[OF q1] have ex: "existing = payments_by_signature (transaction_signature paymentData) d"
      by (auto simp: getPaymentBySignature_def)
    show ?thesis
    proof (cases existing)
      case (Cons r rs)
      with ex have pb: "payments_by_signature (transaction_signature paymentData) d = r # rs" by simp
      from assms q1 d1 Inr Cons have "(Inr r, d, fs1) = (res, d', fs')" by (simp add: createPayment_def)
      with pb show ?thesis by auto
    next
      case Nil
      let ?cb = "\<lambda>fs2 d2.
                    case dm_query (createPayment_stmt paymentData) fs2 d2 of
                      (Inl e, d3, fs3) \<Rightarrow> (Inl e, d3, fs3)
                    | (Inr payment, d3, fs3) \<Rightarrow>
                        (case dm_query (updatePaymentCount (content_id paymentData)) fs3 d3 of
                           (Inl e, d4, fs4) \<Rightarrow> (Inl e, d4, fs4)
                         | (Inr u, d4, fs4) \<Rightarrow> (Inr payment, d4, fs4))"
      from assms q1 d1 Inr Nil have t: "dm_transaction ?cb fs1 d = (res, d', fs')"
        by (simp add: createPayment_def)
      show ?thesis
      proof (cases "fault fs1")
        case True
        with t show ?thesis by (auto simp: dm_transaction_def)
      next
        case False
        obtain b d3 fs3 where q2: "dm_query (createPayment_stmt paymentData) (drop 1 fs1) d = (b, d3, fs3)"
          by (cases "dm_query (createPayment_stmt paymentData) (drop 1 fs1) d") auto
        show ?thesis
        proof (cases b)
          case (Inl e)
          with t False q2 show ?thesis by (auto simp: dm_transaction_def)
        next
          case (Inr payment)
          with dm_query_result[OF q2] have ins: "createPayment_stmt paymentData d = Inr (payment, d3)"
            by auto
          then have p: "payment = paymentData" and d3: "d3 = d\<lparr>payment_logs := payment_logs d @ [paymentData]\<rparr>"
            by (auto simp: createPayment_stmt_def insert_payment_log_def split: if_splits sum.splits)
          obtain c d4 fs4 where q3: "dm_query (updatePaymentCount (content_id paymentData)) fs3 d3 = (c, d4, fs4)"
            by (cases "dm_query (updatePaymentCount (content_id paymentData)) fs3 d3") auto
          show ?thesis
          proof (cases c)
            case (Inl e)
            with t False q2 Inr q3 show ?thesis by (auto simp: dm_transaction_def)
          next
            case c: (Inr u)
            with dm_query_result[OF q3] have d4: "d4 = increment_payments (content_id paymentData) d3"
              by (auto simp: updatePaymentCount_def)
            from t False q2 Inr q3 c have "(\<exists>e. res = Inl e \<and> d' = d) \<or> (res = Inr payment \<and> d' = d4)"
              by (auto simp: dm_transaction_def split: if_splits)
            with p d3 d4 ex Nil show ?thesis by auto
          qed
        qed
      qed
    qed
  qed
qed

lemma createPayment_existing:
  assumes "payments_by_signature (transaction_signature paymentData) d = r # rs"
  shows "createPayment paymentData [] d = (Inr r, d, [])"
proof -
  have "dm_query (getPaymentBySignature (transaction_signature paymentData)) [] d = (Inr (r # rs), d, [])"
    by (rule dm_query_no_faults) (simp add: getPaymentBySignature_def assms)
  then show ?thesis by (simp add: createPayment_def)
qed

lemma createPayment_first:
  assumes "payments_by_signature (transaction_signature paymentData) d = []"
    and "content d (content_id paymentData) = Some c"
  shows "createPayment paymentData [] d =
           (Inr paymentData,
            increment_payments (content_id paymentData) (d\<lparr>payment_logs := payment_logs d @ [paymentData]\<rparr>),
            [])"
proof -
  let ?d3 = "d\<lparr>payment_logs := payment_logs d @ [paymentData]\<rparr>"
  have 1: "dm_query (getPaymentBySignature (transaction_signature paymentData)) [] d = (Inr [], d, [])"
    by (rule dm_query_no_faults) (simp add: getPaymentBySignature_def assms)
  have 2: "dm_query (createPayment_stmt paymentData) [] d = (Inr paymentData, ?d3, [])"
    by (rule dm_query_no_faults) (use assms(2) in \<open>auto simp: createPayment_stmt_def insert_payment_log_def\<close>)
  have 3: "dm_query (updatePaymentCount (content_id paymentData)) [] ?d3
             = (Inr (), increment_payments (content_id paymentData) ?d3, [])"
    by (rule dm_query_no_faults) (simp add: updatePaymentCount_def)
  show ?thesis
    by (simp add: createPayment_def 1 2 3 dm_transaction_def fault_def)
qed

lemma payments_by_signature_increment:
  "payments_by_signature sig (increment_payments cid d) = payments_by_signature sig d"
  by (simp add: payments_by_signature_def increment_payments_def split: option.splits)

text \<open>Idempotency of \<open>createPayment\<close>: once a call has returned a record, a further call with
  the same data returns that record and changes nothing.\<close>

lemma createPayment_idempotent:
  assumes "createPayment paymentData fs d = (Inr r, d1, fs1)"
  shows "createPayment paymentData [] d1 = (Inr r, d1, [])"
proof -
  from createPayment_outcomes[OF assms]
  consider (existing) rs where "payments_by_signature (transaction_signature paymentData) d = r # rs" "d1 = d"
    | (stored) "r = paymentData" "payments_by_signature (transaction_signature paymentData) d = []"
        "d1 = increment_payments (content_id paymentData) (d\<lparr>payment_logs := payment_logs d @ [paymentData]\<rparr>)"
    by auto
  then show ?thesis
  proof cases
    case stored
    then have "payments_by_signature (transaction_signature paymentData) d1 = [paymentData]"
      by (simp add: payments_by_signature_increment) (simp add: payments_by_signature_def)
    with stored(1) show ?thesis using createPayment_existing[of paymentData d1 paymentData "[]"] by simp
  next
    case existing
    then show ?thesis using createPayment_existing[of paymentData d r rs] by simp
  qed
qed

subsection \<open>Recording in the route\<close>

text \<open>
  C2 (the code at the failing input). The route records a verified payment by an insert and a
  counter update of its own (lines 199-210), without looking for an existing record and
  outside any transaction. Verifying the same signature twice leaves two records and a
  payment count of 2; and when the counter update throws after the insert, the record stays
  and the count is unchanged. \<open>DatabaseManager.createPayment\<close>, which the route does not
  call, is idempotent and atomic (\<open>createPayment_idempotent\<close>, \<open>createPayment_outcomes\<close>).
\<close>

theorem repeated_verification_recorded_twice:
  "db_after (verify_route production ok hmac_digest 3000 paying_ledger []
       (db_after (verify_route production ok hmac_digest 2000 paying_ledger [] (example_db None)
                    (example_body example_signature)))
       (example_body example_signature))
   = \<lparr>content = [example_id \<mapsto>
          \<lparr>price_usdc = 10, creator_wallet = ''creator'', expires_at = None, payments = 2\<rparr>],
      payment_logs =
        [\<lparr>content_id = example_id, payer_wallet = ''unknown'', amount_usdc = 10,
          transaction_signature = example_signature, payment_status = Completed\<rparr>,
         \<lparr>content_id = example_id, payer_wallet = ''unknown'', amount_usdc = 10,
          transaction_signature = example_signature, payment_status = Completed\<rparr>]\<rparr>
   \<and> verify_route production ok hmac_digest 2000 paying_ledger [False, False, True] (example_db None)
        (example_body example_signature)
     = \<lparr>response = ServerError,
        db_after =
          \<lparr>content = [example_id \<mapsto>
              \<lparr>price_usdc = 10, creator_wallet = ''creator'', expires_at = None, payments = 0\<rparr>],
           payment_logs =
             [\<lparr>content_id = example_id, payer_wallet = ''unknown'', amount_usdc = 10,
               transaction_signature = example_signature, payment_status = Completed\<rparr>]\<rparr>,
        ledger_calls = [example_signature]\<rparr>"
proof -
  let ?row = "\<lparr>content_id = example_id, payer_wallet = ''unknown'', amount_usdc = 10,
          transaction_signature = example_signature, payment_status = Completed\<rparr>"
  let ?c0 = "\<lparr>price_usdc = 10, creator_wallet = ''creator'', expires_at = None, payments = 0\<rparr>"
  let ?c1 = "\<lparr>price_usdc = 10, creator_wallet = ''creator'', expires_at = None, payments = 1\<rparr>"
  let ?d1 = "\<lparr>content = [example_id \<mapsto> ?c1], payment_logs = [?row]\<rparr>"
  have first: "db_after (verify_route production ok hmac_digest 2000 paying_ledger [] (example_db None)
                    (example_body example_signature)) = ?d1"
    using verify_example_on(1)[of "example_db None" ?c0 ok hmac_digest 2000]
    by (simp add: example_content) (simp add: example_db_def)
  have c1: "content ?d1 example_id = Some ?c1" by simp
  have second: "db_after (verify_route production ok hmac_digest 3000 paying_ledger [] ?d1
                    (example_body example_signature))
        = \<lparr>content = [example_id \<mapsto>
          \<lparr>price_usdc = 10, creator_wallet = ''creator'', expires_at = None, payments = 2\<rparr>],
           payment_logs = [?row, ?row]\<rparr>"
    using verify_example_on(1)[of ?d1 ?c1 ok hmac_digest 3000, OF c1] by simp
  have v: "validatePaymentRequest ok (example_body example_signature) = None"
    by (rule validate_example[OF example_signature_valid example_signature_nonempty])
  have faulty: "verify_route production ok hmac_digest 2000 paying_ledger [False, False, True] (example_db None)
        (example_body example_signature)
     = \<lparr>response = ServerError,
        db_after = \<lparr>content = [example_id \<mapsto> ?c0], payment_logs = [?row]\<rparr>,
        ledger_calls = [example_signature]\<rparr>"
    by (simp add: verify_route_def v example_body_fields js_not_def field_text_def
        example_id_nonempty example_signature_nonempty fault_def example_content
        example_signature_not_sim paying_ledger_verified log_payment_def insert_payment_log_def
        or_unknown_def Let_def)
       (simp add: example_db_def)
  from first second faulty show ?thesis by simp
qed

end
